theory Spec2Isabelle
  imports Main "HOL-Library.Sublist"
begin

section \<open>Python primitives used by the scripts\<close>

text \<open>
  Text is a list of characters with code points below 256.  On that range Python's
  \<^verbatim>\<open>\d\<close> matches exactly the ten ASCII digits, \<^verbatim>\<open>\s\<close> and
  \<^verbatim>\<open>str.isspace\<close> accept the code points listed in \<open>is_space\<close>, and
  \<^verbatim>\<open>[A-Z]\<close> is the ASCII upper-case range.  Python integers are unbounded
  (\<open>int\<close>); the interpreter's optional limit on the number of digits that \<^verbatim>\<open>int()\<close>
  converts is not modelled.
\<close>

definition is_digit :: "char \<Rightarrow> bool" where
  "is_digit c = (c \<in> set ''0123456789'')"

definition is_space :: "char \<Rightarrow> bool" where
  "is_space c = ((of_char c :: nat) \<in> {9, 10, 11, 12, 13, 28, 29, 30, 31, 32, 133, 160})"

definition is_upper :: "char \<Rightarrow> bool" where
  "is_upper c = (c \<in> set ''ABCDEFGHIJKLMNOPQRSTUVWXYZ'')"

text \<open>\<^verbatim>\<open>str.strip()\<close>: remove leading and trailing whitespace.\<close>

definition strip :: "string \<Rightarrow> string" where
  "strip s = rev (dropWhile is_space (rev (dropWhile is_space s)))"

definition digit_val :: "char \<Rightarrow> nat" where
  "digit_val c = of_char c - 48"

definition digits_val :: "string \<Rightarrow> nat" where
  "digits_val s = foldl (\<lambda>acc c. 10 * acc + digit_val c) 0 s"

text \<open>
  The body of an integer literal accepted by \<^verbatim>\<open>int(str)\<close>: decimal digits, with single
  underscores allowed between two digits.
\<close>

fun int_body :: "string \<Rightarrow> bool" where
  "int_body [] = False"
| "int_body [c] = is_digit c"
| "int_body (c # d # r) =
     (is_digit c \<and> (if d = CHR ''_'' then int_body r else int_body (d # r)))"

text \<open>
  \<^verbatim>\<open>int(s)\<close> for a string: surrounding whitespace is ignored, one sign is allowed,
  anything else raises \<^verbatim>\<open>ValueError\<close> (here \<open>None\<close>).
\<close>

definition py_int :: "string \<Rightarrow> int option" where
  "py_int s =
     (let t = strip s;
          neg = (t \<noteq> [] \<and> hd t = CHR ''-'');
          b = (if t \<noteq> [] \<and> (hd t = CHR ''-'' \<or> hd t = CHR ''+'') then tl t else t)
      in if int_body b
         then Some ((if neg then - 1 else 1) * int (digits_val (filter (\<lambda>c. c \<noteq> CHR ''_'') b)))
         else None)"

text \<open>\<^verbatim>\<open>int(x)\<close> where \<open>x\<close> may be Python's \<^verbatim>\<open>None\<close> (a \<^verbatim>\<open>TypeError\<close>).\<close>

definition py_int_opt :: "string option \<Rightarrow> int option" where
  "py_int_opt x = (case x of None \<Rightarrow> None | Some s \<Rightarrow> py_int s)"

definition digit_char :: "nat \<Rightarrow> char" where
  "digit_char n = ''0123456789'' ! (n mod 10)"

fun nat_digits :: "nat \<Rightarrow> string" where
  "nat_digits n = (if n < 10 then [digit_char n] else nat_digits (n div 10) @ [digit_char n])"

declare nat_digits.simps [simp del]

text \<open>\<^verbatim>\<open>str(i)\<close>, also what an f-string writes for an integer.\<close>

definition py_str :: "int \<Rightarrow> string" where
  "py_str i = (if i < 0 then CHR ''-'' # nat_digits (nat (- i)) else nat_digits (nat i))"


section \<open>The regular expressions, as a backtracking matcher\<close>

text \<open>
  Both patterns of the scripts are sequences of literals and single-character repetitions.
  An \<open>item\<close> is one such element; the matcher tries the alternatives of an item in the
  order Python's engine does (a greedy repetition first takes one more character, a lazy one
  first tries to stop) and returns the first way in which the whole remaining pattern
  matches.  The result lists, for every item of the pattern, the text it consumed.
\<close>

datatype cls = Space | Digit | Upper | AnyChar | NotQuote

fun in_cls :: "cls \<Rightarrow> char \<Rightarrow> bool" where
  "in_cls Space c = is_space c"
| "in_cls Digit c = is_digit c"
| "in_cls Upper c = is_upper c"
| "in_cls AnyChar c = True"
| "in_cls NotQuote c = (c \<noteq> CHR 0x22)"

datatype item =
    Lit string        \<comment> \<open>literal text\<close>
  | Star cls          \<comment> \<open>\<^verbatim>\<open>x*\<close>, greedy\<close>
  | Plus cls          \<comment> \<open>\<^verbatim>\<open>x+\<close>, greedy\<close>
  | LazyStar cls      \<comment> \<open>\<^verbatim>\<open>x*?\<close>\<close>
  | Exactly nat cls   \<comment> \<open>\<^verbatim>\<open>x{n}\<close>\<close>
  | Opt char          \<comment> \<open>\<^verbatim>\<open>c?\<close>, greedy\<close>

type_synonym pieces = "string list"
type_synonym cont = "string \<Rightarrow> pieces option"

fun cons_hd :: "char \<Rightarrow> pieces \<Rightarrow> pieces" where
  "cons_hd c [] = [[c]]"
| "cons_hd c (p # ps) = (c # p) # ps"

definition skip :: "cont \<Rightarrow> string \<Rightarrow> pieces option" where
  "skip k s = map_option (Cons []) (k s)"

primrec star :: "cls \<Rightarrow> cont \<Rightarrow> string \<Rightarrow> pieces option" where
  "star c k [] = skip k []"
| "star c k (x # xs) =
     (if in_cls c x
      then (case star c k xs of
              Some ps \<Rightarrow> Some (cons_hd x ps)
            | None \<Rightarrow> skip k (x # xs))
      else skip k (x # xs))"

definition plus :: "cls \<Rightarrow> cont \<Rightarrow> string \<Rightarrow> pieces option" where
  "plus c k s =
     (case s of
        [] \<Rightarrow> None
      | x # xs \<Rightarrow> if in_cls c x then map_option (cons_hd x) (star c k xs) else None)"

primrec lazy_star :: "cls \<Rightarrow> cont \<Rightarrow> string \<Rightarrow> pieces option" where
  "lazy_star c k [] = skip k []"
| "lazy_star c k (x # xs) =
     (case skip k (x # xs) of
        Some ps \<Rightarrow> Some ps
      | None \<Rightarrow> if in_cls c x then map_option (cons_hd x) (lazy_star c k xs) else None)"

fun match_item :: "item \<Rightarrow> cont \<Rightarrow> string \<Rightarrow> pieces option" where
  "match_item (Lit l) k s =
     (if prefix l s then map_option (Cons l) (k (drop (length l) s)) else None)"
| "match_item (Star c) k s = star c k s"
| "match_item (Plus c) k s = plus c k s"
| "match_item (LazyStar c) k s = lazy_star c k s"
| "match_item (Exactly n c) k s =
     (if n \<le> length s \<and> list_all (in_cls c) (take n s)
      then map_option (Cons (take n s)) (k (drop n s)) else None)"
| "match_item (Opt c) k s =
     (case s of
        [] \<Rightarrow> skip k []
      | x # xs \<Rightarrow>
          if x = c
          then (case k xs of Some ps \<Rightarrow> Some ([c] # ps) | None \<Rightarrow> skip k (x # xs))
          else skip k (x # xs))"

text \<open>\<^verbatim>\<open>pattern.match\<close> at the start of \<open>s\<close>: the pieces of the first successful way.\<close>

primrec rmatch :: "item list \<Rightarrow> string \<Rightarrow> pieces option" where
  "rmatch [] s = Some []"
| "rmatch (i # is) s = match_item i (rmatch is) s"

text \<open>
  Scanning a text from left to right, as \<^verbatim>\<open>finditer\<close> and \<^verbatim>\<open>sub\<close> do: at each
  position the pattern is tried; a match is recorded and the scan resumes behind it, otherwise
  one character is passed over.  Both patterns start with the literal \<^verbatim>\<open>Country(\<close>,
  so a match is never empty; the scan steps over one character after an empty match.
\<close>

datatype seg = Gap char | Hit pieces

function scan :: "item list \<Rightarrow> string \<Rightarrow> seg list" where
  "scan re s =
     (case rmatch re s of
        Some ps \<Rightarrow>
          (if 0 < length (concat ps) \<and> length (concat ps) \<le> length s
           then Hit ps # scan re (drop (length (concat ps)) s)
           else Hit ps # (case s of [] \<Rightarrow> [] | c # cs \<Rightarrow> Gap c # scan re cs))
      | None \<Rightarrow> (case s of [] \<Rightarrow> [] | c # cs \<Rightarrow> Gap c # scan re cs))"
  by pat_completeness auto
termination
proof (relation "measure (\<lambda>(re, s). length s)")
  fix re :: "item list" and s :: string and ps :: pieces
  assume "0 < length (concat ps) \<and> length (concat ps) \<le> length s"
  then have "length (drop (length (concat ps)) s) < length s"
    by (simp del: length_greater_0_conv)
  then show "((re, drop (length (concat ps)) s), (re, s)) \<in> measure (\<lambda>(re, s). length s)"
    by simp
qed auto

declare scan.simps [simp del]

fun hits :: "seg list \<Rightarrow> pieces list" where
  "hits [] = []"
| "hits (Gap c # r) = hits r"
| "hits (Hit ps # r) = ps # hits r"

text \<open>\<^verbatim>\<open>pattern.finditer(text)\<close>: the matches, in order.\<close>

definition finditer :: "item list \<Rightarrow> string \<Rightarrow> pieces list" where
  "finditer re s = hits (scan re s)"

fun seg_text :: "(pieces \<Rightarrow> string) \<Rightarrow> seg \<Rightarrow> string" where
  "seg_text repl (Gap c) = [c]"
| "seg_text repl (Hit ps) = repl ps"

text \<open>\<^verbatim>\<open>pattern.sub(repl, text)\<close> with a function as replacement.\<close>

definition re_sub :: "item list \<Rightarrow> (pieces \<Rightarrow> string) \<Rightarrow> string \<Rightarrow> string" where
  "re_sub re repl s = concat (map (seg_text repl) (scan re s))"


section \<open>update_lengths.py\<close>

text \<open>
  The pattern of \<^verbatim>\<open>update_lengths\<close>:
  \<^verbatim>\<open>(Country\(\s*(?:.|\n)*?code:\s*\"(?P<code>[A-Z]{2})\"\s*,(?:.|\n)*?minLength:\s*)\<close>
  \<^verbatim>\<open>(?P<min>\d+)(\s*,\s*\n\s*maxLength:\s*)(?P<max>\d+)\<close>.
  Group 1 is items 0 to 12, \<^verbatim>\<open>code\<close> is item 6, \<^verbatim>\<open>min\<close> item 13, group 4 items
  14 to 20 and \<^verbatim>\<open>max\<close> item 21.
\<close>

definition country_re :: "item list" where
  "country_re =
     [Lit ''Country('', Star Space, LazyStar AnyChar, Lit ''code:'', Star Space,
      Lit [CHR 0x22], Exactly 2 Upper, Lit [CHR 0x22], Star Space, Lit '','',
      LazyStar AnyChar, Lit ''minLength:'', Star Space,
      Plus Digit,
      Star Space, Lit '','', Star Space, Lit [CHR 0x0A], Star Space, Lit ''maxLength:'',
      Star Space,
      Plus Digit]"

record rematch =
  group0 :: string
  group1 :: string
  group_code :: string
  group_min :: string
  group4 :: string
  group_max :: string

definition mk_match :: "pieces \<Rightarrow> rematch" where
  "mk_match ps =
     \<lparr>group0 = concat ps,
      group1 = concat (take 13 ps),
      group_code = ps ! 6,
      group_min = ps ! 13,
      group4 = concat (take 7 (drop 14 ps)),
      group_max = ps ! 21\<rparr>"

type_synonym lengths = "string \<rightharpoonup> int \<times> int"

text \<open>
  The values of \<^verbatim>\<open>lengths\<close> are integers (\<^verbatim>\<open>Dict[str, Tuple[int, int]]\<close>), so
  the \<^verbatim>\<open>isinstance\<close> tests of the source are true.
\<close>

definition new_min :: "int \<Rightarrow> int \<Rightarrow> int" where
  "new_min auth_min current_min = (if auth_min < current_min then auth_min else current_min)"

definition new_max :: "int \<Rightarrow> int \<Rightarrow> int" where
  "new_max auth_max current_max = (if 0 < auth_max then auth_max else current_max)"

definition replacer :: "lengths \<Rightarrow> rematch \<Rightarrow> string" where
  "replacer lengths m =
     (case lengths (group_code m) of
        None \<Rightarrow> group0 m
      | Some (auth_min, auth_max) \<Rightarrow>
          if auth_min \<le> 0 then group0 m
          else
            (case py_int (group_min m) of
               None \<Rightarrow> group0 m
             | Some current_min \<Rightarrow>
                 (case py_int (group_max m) of
                    None \<Rightarrow> group0 m
                  | Some current_max \<Rightarrow>
                      if new_min auth_min current_min = current_min
                         \<and> new_max auth_max current_max = current_max
                      then group0 m
                      else group1 m @ py_str (new_min auth_min current_min)
                           @ group4 m @ py_str (new_max auth_max current_max))))"

definition update_lengths :: "string \<Rightarrow> lengths \<Rightarrow> string" where
  "update_lengths dart_source lengths =
     re_sub country_re (\<lambda>ps. replacer lengths (mk_match ps)) dart_source"

text \<open>
  The text of \<open>dart_source\<close> cut at the matches of the pattern, and the pieces that
  \<^verbatim>\<open>sub\<close> joins to the result: one per character outside the matches, one per match.
\<close>

definition source_segs :: "string \<Rightarrow> string list" where
  "source_segs dart_source = map (seg_text concat) (scan country_re dart_source)"

definition patched_segs :: "string \<Rightarrow> lengths \<Rightarrow> string list" where
  "patched_segs dart_source lengths =
     map (seg_text (\<lambda>ps. replacer lengths (mk_match ps))) (scan country_re dart_source)"

text \<open>
  \<^verbatim>\<open>load_authoritative\<close> reads the rows of a \<^verbatim>\<open>csv.DictReader\<close>.  A row maps column
  names to values; a column the header lacks is absent (\<^verbatim>\<open>KeyError\<close>), a column
  that a short line leaves unfilled holds Python's \<^verbatim>\<open>None\<close>.  Errors raised inside the
  \<^verbatim>\<open>try\<close> skip the row; those raised while reading \<^verbatim>\<open>code\<close> propagate.
\<close>

datatype error = KeyError | AttributeError | ValueError | RuntimeError

type_synonym csv_row = "string \<rightharpoonup> string option"

definition row_int :: "csv_row \<Rightarrow> string \<Rightarrow> int option" where
  "row_int row col = (case row col of None \<Rightarrow> None | Some v \<Rightarrow> py_int_opt v)"

fun load_rows :: "csv_row list \<Rightarrow> lengths \<Rightarrow> error + lengths" where
  "load_rows [] data = Inr data"
| "load_rows (row # rows) data =
     (case row ''code'' of
        None \<Rightarrow> Inl KeyError
      | Some None \<Rightarrow> Inl AttributeError
      | Some (Some c) \<Rightarrow>
          (let code = strip c in
           case row_int row ''min_length'' of
             None \<Rightarrow> load_rows rows data
           | Some min_len \<Rightarrow>
               (case row_int row ''max_length'' of
                  None \<Rightarrow> load_rows rows data
                | Some max_len \<Rightarrow>
                    if min_len \<le> 0 \<or> max_len \<le> 0 then load_rows rows data
                    else load_rows rows (data(code \<mapsto> (min_len, max_len))))))"

definition load_authoritative :: "csv_row list \<Rightarrow> error + lengths" where
  "load_authoritative rows = load_rows rows Map.empty"

section \<open>validate_countries.py\<close>

record CountryRow =
  code :: string
  name :: string
  dial_code :: string
  min_length :: int
  max_length :: int





text \<open>
  A Python dictionary keeps its keys in the order of their first insertion; assigning to a
  key that is present replaces the value in place.
\<close>

fun dict_set :: "(string \<times> 'v) list \<Rightarrow> string \<Rightarrow> 'v \<Rightarrow> (string \<times> 'v) list" where
  "dict_set [] k v = [(k, v)]"
| "dict_set ((k', v') # d) k v = (if k' = k then (k, v) # d else (k', v') # dict_set d k v)"

definition index_by_code :: "CountryRow list \<Rightarrow> (string \<times> CountryRow) list" where
  "index_by_code rows = foldl (\<lambda>d r. dict_set d (code r) r) [] rows"

record DiffRow =
  diff_code :: string
  current_name :: string
  authoritative_name :: string
  current_dial_code :: string
  authoritative_dial_code :: string
  current_min_length :: string
  authoritative_min_length :: string
  current_max_length :: string
  authoritative_max_length :: string
  diff_note :: string

definition missing_row :: "string \<Rightarrow> CountryRow \<Rightarrow> DiffRow" where
  "missing_row c cur =
     \<lparr>diff_code = c, current_name = name cur, authoritative_name = [],
      current_dial_code = dial_code cur, authoritative_dial_code = [],
      current_min_length = py_str (min_length cur), authoritative_min_length = [],
      current_max_length = py_str (max_length cur), authoritative_max_length = [],
      diff_note = ''Missing in authoritative''\<rparr>"

definition mismatch_row :: "string \<Rightarrow> CountryRow \<Rightarrow> CountryRow \<Rightarrow> DiffRow" where
  "mismatch_row c cur auth =
     \<lparr>diff_code = c, current_name = name cur, authoritative_name = name auth,
      current_dial_code = dial_code cur, authoritative_dial_code = dial_code auth,
      current_min_length = py_str (min_length cur),
      authoritative_min_length = py_str (min_length auth),
      current_max_length = py_str (max_length cur),
      authoritative_max_length = py_str (max_length auth),
      diff_note = []\<rparr>"

definition has_diff :: "CountryRow \<Rightarrow> CountryRow \<Rightarrow> bool" where
  "has_diff cur auth =
     (dial_code cur \<noteq> dial_code auth \<or> min_length cur \<noteq> min_length auth
      \<or> max_length cur \<noteq> max_length auth)"

text \<open>The loop of \<^verbatim>\<open>build_diff_rows\<close> over the items of \<^verbatim>\<open>current_by_code\<close>.\<close>

fun diff_loop :: "(string \<times> CountryRow) list \<Rightarrow> (string \<times> CountryRow) list \<Rightarrow> DiffRow list
    \<Rightarrow> DiffRow list" where
  "diff_loop [] auth_by_code diffs = diffs"
| "diff_loop ((c, cur) # items) auth_by_code diffs =
     (case map_of auth_by_code c of
        None \<Rightarrow> diff_loop items auth_by_code (diffs @ [missing_row c cur])
      | Some auth \<Rightarrow>
          if has_diff cur auth
          then diff_loop items auth_by_code (diffs @ [mismatch_row c cur auth])
          else diff_loop items auth_by_code diffs)"

definition build_diff_rows :: "CountryRow list \<Rightarrow> CountryRow list \<Rightarrow> DiffRow list" where
  "build_diff_rows current_rows authoritative_rows =
     diff_loop (index_by_code current_rows) (index_by_code authoritative_rows) []"


section \<open>Notions used in the statements\<close>

text \<open>What an item of a pattern can consume.\<close>

fun piece_ok :: "item \<Rightarrow> string \<Rightarrow> bool" where
  "piece_ok (Lit l) p = (p = l)"
| "piece_ok (Star c) p = list_all (in_cls c) p"
| "piece_ok (Plus c) p = (p \<noteq> [] \<and> list_all (in_cls c) p)"
| "piece_ok (LazyStar c) p = list_all (in_cls c) p"
| "piece_ok (Exactly n c) p = (length p = n \<and> list_all (in_cls c) p)"
| "piece_ok (Opt c) p = (p = [] \<or> p = [c])"

text \<open>A non-empty string of decimal digits.\<close>

definition digits :: "string \<Rightarrow> bool" where
  "digits s = (s \<noteq> [] \<and> list_all is_digit s)"


text \<open>
  A piece of the result keeps the frame of a segment of the source: a character outside the
  matches is the same character; a match is group 1, a decimal number, group 4 and a decimal
  number, in the source and in the result.
\<close>

fun same_frame :: "seg \<Rightarrow> string \<Rightarrow> bool" where
  "same_frame (Gap c) out = (out = [c])"
| "same_frame (Hit ps) out =
     (\<exists>mn mx. digits (group_min (mk_match ps)) \<and> digits (group_max (mk_match ps))
        \<and> digits mn \<and> digits mx
        \<and> concat ps = group1 (mk_match ps) @ group_min (mk_match ps)
                        @ group4 (mk_match ps) @ group_max (mk_match ps)
        \<and> out = group1 (mk_match ps) @ mn @ group4 (mk_match ps) @ mx)"


text \<open>A small source text with one entry, and the pieces of its match.\<close>

definition example_source :: string where
  "example_source = ''[Country(code: \"US\",minLength: 10,\<newline>maxLength: 10)]''"

definition example_pieces :: pieces where
  "example_pieces =
     [''Country('', [], [], ''code:'', '' '', [CHR 0x22], ''US'', [CHR 0x22], [], '','', [],
      ''minLength:'', '' '', ''10'', [], '','', [], [CHR 0x0A], [], ''maxLength:'', '' '', ''10'']"


text \<open>Two small datasets for the diff.\<close>

definition example_current :: "CountryRow list" where
  "example_current =
     [\<lparr>code = ''US'', name = ''United States'', dial_code = ''1'', min_length = 10, max_length = 10\<rparr>,
      \<lparr>code = ''ZZ'', name = ''Nowhere'', dial_code = ''999'', min_length = 5, max_length = 6\<rparr>,
      \<lparr>code = ''DE'', name = ''Germany'', dial_code = ''49'', min_length = 3, max_length = 14\<rparr>]"

definition example_authoritative :: "CountryRow list" where
  "example_authoritative =
     [\<lparr>code = ''US'', name = ''United States'', dial_code = ''1'', min_length = 7, max_length = 10\<rparr>,
      \<lparr>code = ''DE'', name = ''Germany'', dial_code = ''49'', min_length = 3, max_length = 14\<rparr>,
      \<lparr>code = ''FR'', name = ''France'', dial_code = ''33'', min_length = 9, max_length = 9\<rparr>]"




text \<open>
  A well-formed entry of the local data file, given by its parts: the texts of the five
  fields, the white space around them, and the text of the other fields that stand before
  \<^verbatim>\<open>code\<close>, \<^verbatim>\<open>dialCode\<close> and \<^verbatim>\<open>minLength\<close>.
\<close>

record entry =
  sp_open :: string
  sp_name :: string
  name_text :: string
  sp_name_end :: string
  fill_code :: string
  sp_code :: string
  code_text :: string
  sp_code_end :: string
  fill_dial :: string
  sp_dial :: string
  dial_text :: string
  sp_dial_end :: string
  fill_min :: string
  sp_min :: string
  min_text :: string
  sp_min_end :: string
  sp_max_pre :: string
  sp_max :: string
  max_text :: string
  sp_max_end :: string
  trailing_comma :: bool
  sp_close :: string

definition entry_pieces :: "entry \<Rightarrow> pieces" where
  "entry_pieces e =
     [''Country('', sp_open e, ''name:'', sp_name e, [CHR 0x22], name_text e, [CHR 0x22],
      sp_name_end e, '','', fill_code e,
      ''code:'', sp_code e, [CHR 0x22], code_text e, [CHR 0x22], sp_code_end e, '','',
      fill_dial e,
      ''dialCode:'', sp_dial e, [CHR 0x22], dial_text e, [CHR 0x22], sp_dial_end e, '','',
      fill_min e,
      ''minLength:'', sp_min e, min_text e, sp_min_end e, '','', sp_max_pre e,
      ''maxLength:'', sp_max e, max_text e, sp_max_end e,
      (if trailing_comma e then '','' else []), sp_close e, '')'']"

definition entry_text :: "entry \<Rightarrow> string" where
  "entry_text e = concat (entry_pieces e)"










text \<open>
  The shape of a text: every maximal run of digits is replaced by one \<^verbatim>\<open>0\<close>.  The flag of
  \<open>shp\<close> says that the character before was a digit.
\<close>

primrec shp :: "bool \<Rightarrow> string \<Rightarrow> string" where
  "shp b [] = []"
| "shp b (c # s) =
     (if is_digit c then (if b then shp True s else CHR ''0'' # shp True s)
      else c # shp False s)"

definition shape :: "string \<Rightarrow> string" where
  "shape s = shp False s"

text \<open>
  Patterns whose matches depend on the shape of the text only: literals and classes without
  digits, \<^verbatim>\<open>\d+\<close> at the end or before something that cannot begin with a digit, and a
  lazy \<^verbatim>\<open>.*?\<close> before something that cannot begin with a digit.
\<close>

fun digit_free :: "cls \<Rightarrow> bool" where
  "digit_free Space = True"
| "digit_free Upper = True"
| "digit_free c = False"

fun rej :: "item list \<Rightarrow> bool" where
  "rej (Lit l # is) = (l \<noteq> [] \<and> \<not> is_digit (hd l))"
| "rej (Star c # is) = (digit_free c \<and> rej is)"
| "rej is = False"

fun safe :: "item list \<Rightarrow> bool" where
  "safe [] = True"
| "safe (Lit l # is) = (list_all (\<lambda>c. \<not> is_digit c) l \<and> safe is)"
| "safe (Star c # is) = (digit_free c \<and> safe is)"
| "safe (Exactly n c # is) = (digit_free c \<and> safe is)"
| "safe (LazyStar c # is) = (c = AnyChar \<and> rej is \<and> safe is)"
| "safe (Plus c # is) = (c = Digit \<and> (is = [] \<or> rej is) \<and> safe is)"
| "safe (Opt c # is) = False"

text \<open>The pieces \<open>ps'\<close> are the pieces \<open>ps\<close> with other numbers at the \<^verbatim>\<open>\d+\<close> items.\<close>

fun retoken :: "item list \<Rightarrow> pieces \<Rightarrow> pieces \<Rightarrow> bool" where
  "retoken [] ps ps' = (ps = [] \<and> ps' = [])"
| "retoken (i # is) (p # ps) (p' # ps') =
     ((if i = Plus Digit then digits p' else p' = p) \<and> retoken is ps ps')"
| "retoken (i # is) ps ps' = False"


text \<open>A mapping all of whose pairs are positive.\<close>

definition pos_lengths :: "lengths \<Rightarrow> bool" where
  "pos_lengths d = (\<forall>c a b. d c = Some (a, b) \<longrightarrow> 1 \<le> a \<and> 1 \<le> b)"


section \<open>Integers and their decimal text\<close>

lemma is_digit_not_space: "is_digit c \<Longrightarrow> \<not> is_space c"
  by (auto simp: is_digit_def is_space_def)

lemma dropWhile_hd_id: "xs \<noteq> [] \<Longrightarrow> \<not> P (hd xs) \<Longrightarrow> dropWhile P xs = xs"
  by (cases xs) auto

lemma strip_digits: "s \<noteq> [] \<Longrightarrow> list_all is_digit s \<Longrightarrow> strip s = s"
proof -
  assume a: "s \<noteq> []" "list_all is_digit s"
  then have h: "\<not> is_space (hd s)" "\<not> is_space (last s)"
    by (auto simp: list_all_iff is_digit_not_space)
  from a h have "dropWhile is_space s = s" by (simp add: dropWhile_hd_id)
  moreover have "dropWhile is_space (rev s) = rev s"
    using a h by (intro dropWhile_hd_id) (simp_all add: hd_rev)
  ultimately show ?thesis by (simp add: strip_def)
qed

lemma int_body_digits: "s \<noteq> [] \<Longrightarrow> list_all is_digit s \<Longrightarrow> int_body s"
  by (induction s rule: int_body.induct) (auto simp: is_digit_def)

lemma filter_digits: "list_all is_digit s \<Longrightarrow> filter (\<lambda>c. c \<noteq> CHR ''_'') s = s"
  by (induction s) (auto simp: is_digit_def)

lemma py_int_digits:
  "s \<noteq> [] \<Longrightarrow> list_all is_digit s \<Longrightarrow> py_int s = Some (int (digits_val s))"
proof -
  assume a: "s \<noteq> []" "list_all is_digit s"
  then have "is_digit (hd s)" by (cases s) auto
  then have "hd s \<noteq> CHR ''-''" "hd s \<noteq> CHR ''+''" by (auto simp: is_digit_def)
  with a show ?thesis
    by (simp add: py_int_def strip_digits int_body_digits filter_digits Let_def)
qed

lemma below_ten: "(k::nat) < 10 \<Longrightarrow> k = 0 \<or> k = 1 \<or> k = 2 \<or> k = 3 \<or> k = 4 \<or> k = 5 \<or> k = 6 \<or> k = 7 \<or> k = 8 \<or> k = 9"
  by arith

lemma digit_char_digit: "is_digit (digit_char n)"
  using below_ten [of "n mod 10"] by (auto simp: digit_char_def is_digit_def)

lemma digit_val_char: "digit_val (digit_char n) = n mod 10"
  using below_ten [of "n mod 10"] by (auto simp: digit_char_def digit_val_def)

lemma nat_digits_ne: "nat_digits n \<noteq> []"
  by (subst nat_digits.simps) simp

lemma nat_digits_all: "list_all is_digit (nat_digits n)"
proof (induction n rule: nat_digits.induct)
  case (1 n)
  then show ?case
    by (subst nat_digits.simps) (simp add: digit_char_digit)
qed

lemma digits_val_snoc: "digits_val (s @ [c]) = 10 * digits_val s + digit_val c"
  by (simp add: digits_val_def)

lemma digits_val_nat_digits: "digits_val (nat_digits n) = n"
proof (induction n rule: nat_digits.induct)
  case (1 n)
  show ?case
  proof (cases "n < 10")
    case True
    then show ?thesis by (subst nat_digits.simps) (simp add: digits_val_def digit_val_char)
  next
    case False
    with 1 show ?thesis
      by (subst nat_digits.simps) (simp add: digits_val_snoc digit_val_char)
  qed
qed

lemma py_str_digits: "0 \<le> i \<Longrightarrow> py_str i \<noteq> [] \<and> list_all is_digit (py_str i)"
  by (simp add: py_str_def nat_digits_ne nat_digits_all)

lemma py_int_py_str: "0 \<le> i \<Longrightarrow> py_int (py_str i) = Some i"
  by (simp add: py_str_def py_int_digits nat_digits_ne nat_digits_all digits_val_nat_digits)


section \<open>Loading the authoritative lengths\<close>

lemma pos_lengths_empty: "pos_lengths Map.empty"
  by (simp add: pos_lengths_def)

lemma pos_lengths_upd: "pos_lengths d \<Longrightarrow> 1 \<le> a \<Longrightarrow> 1 \<le> b \<Longrightarrow> pos_lengths (d(c \<mapsto> (a, b)))"
  by (simp add: pos_lengths_def)

lemma load_rows_pos:
  "load_rows rows d = Inr L \<Longrightarrow> pos_lengths d \<Longrightarrow> pos_lengths L"
proof (induction rows arbitrary: d)
  case Nil
  then show ?case by simp
next
  case (Cons row rows)
  show ?case
  proof (cases "row ''code''")
    case None
    with Cons.prems show ?thesis by simp
  next
    case (Some oc)
    show ?thesis
    proof (cases oc)
      case None
      with Some Cons.prems show ?thesis by simp
    next
      case (Some c)
      note c = \<open>row ''code'' = Some oc\<close> Some
      show ?thesis
      proof (cases "row_int row ''min_length''")
        case None
        with c Cons show ?thesis by simp
      next
        case mn: (Some a)
        show ?thesis
        proof (cases "row_int row ''max_length''")
          case None
          with c mn Cons show ?thesis by simp
        next
          case mx: (Some b)
          show ?thesis
          proof (cases "a \<le> 0 \<or> b \<le> 0")
            case True
            with c mn mx Cons show ?thesis by auto
          next
            case False
            then have "pos_lengths (d(strip c \<mapsto> (a, b)))"
              using Cons.prems(2) by (intro pos_lengths_upd) auto
            moreover have "load_rows rows (d(strip c \<mapsto> (a, b))) = Inr L"
              using c mn mx False Cons.prems(1) by simp
            ultimately show ?thesis using Cons.IH by blast
          qed
        qed
      qed
    qed
  qed
qed

lemma py_int_7: "py_int ''7'' = Some 7"
  by code_simp

lemma py_int_10: "py_int ''10'' = Some 10"
  by code_simp

text \<open>
  C10: every pair of the mapping that \<open>load_authoritative\<close> returns has a minimum and a
  maximum of at least 1, since rows with unparsable or non-positive values are skipped.
  Hence, for a match whose code is in such a mapping, neither the test for a non-positive
  authoritative minimum nor the one for a non-positive authoritative maximum of
  \<open>replacer\<close> is taken: the replacement is computed from both authoritative values.
\<close>

theorem load_authoritative_positive:
  assumes "load_authoritative rows = Inr L" and "L (group_code m) = Some (auth_min, auth_max)"
  shows "1 \<le> auth_min \<and> 1 \<le> auth_max \<and> \<not> auth_min \<le> 0 \<and> 0 < auth_max \<and>
    replacer L m =
      (case py_int (group_min m) of
         None \<Rightarrow> group0 m
       | Some current_min \<Rightarrow>
           (case py_int (group_max m) of
              None \<Rightarrow> group0 m
            | Some current_max \<Rightarrow>
                if new_min auth_min current_min = current_min \<and> auth_max = current_max
                then group0 m
                else group1 m @ py_str (new_min auth_min current_min)
                     @ group4 m @ py_str auth_max))"
proof -
  have "pos_lengths L"
    using assms(1) load_rows_pos pos_lengths_empty unfolding load_authoritative_def by blast
  then have p: "1 \<le> auth_min" "1 \<le> auth_max"
    using assms(2) unfolding pos_lengths_def by blast+
  then have g: "\<not> auth_min \<le> 0" "0 < auth_max" by simp_all
  show ?thesis
    using p g assms(2) by (simp add: replacer_def new_max_def split: option.splits)
qed

theorem load_authoritative_positive_witness:
  "load_authoritative
     [[''code'' \<mapsto> Some ''US'', ''min_length'' \<mapsto> Some ''7'', ''max_length'' \<mapsto> Some ''10''],
      [''code'' \<mapsto> Some ''ZZ'', ''min_length'' \<mapsto> Some ''0'', ''max_length'' \<mapsto> Some ''10'']]
     = Inr [''US'' \<mapsto> (7, 10)]
   \<and> [''US'' \<mapsto> (7 :: int, 10 :: int)] ''US'' = Some (7, 10)
   \<and> (1 :: int) \<le> 7 \<and> (1 :: int) \<le> 10
   \<and> replacer [''US'' \<mapsto> (7, 10)]
        \<lparr>group0 = ''minLength: 10,\<newline>maxLength: 10'', group1 = ''minLength: '',
         group_code = ''US'', group_min = ''10'', group4 = '',\<newline>maxLength: '',
         group_max = ''10''\<rparr>
       = ''minLength: 7,\<newline>maxLength: 10''"
proof -
  have z: "py_int ''0'' = Some 0" by code_simp
  have s: "strip ''US'' = ''US''" "strip ''ZZ'' = ''ZZ''" by code_simp+
  have l: "load_authoritative
     [[''code'' \<mapsto> Some ''US'', ''min_length'' \<mapsto> Some ''7'', ''max_length'' \<mapsto> Some ''10''],
      [''code'' \<mapsto> Some ''ZZ'', ''min_length'' \<mapsto> Some ''0'', ''max_length'' \<mapsto> Some ''10'']]
     = Inr [''US'' \<mapsto> (7, 10)]"
    by (simp add: load_authoritative_def row_int_def py_int_opt_def py_int_7 py_int_10 z s)
  have d: "py_str 7 = ''7''" "py_str 10 = ''10''" by code_simp+
  show ?thesis
    using load_authoritative_positive [OF l, of
        "\<lparr>group0 = ''minLength: 10,\<newline>maxLength: 10'', group1 = ''minLength: '',
         group_code = ''US'', group_min = ''10'', group4 = '',\<newline>maxLength: '',
         group_max = ''10''\<rparr>" 7 10] l
    by (simp add: py_int_10 d new_min_def)
qed


section \<open>What a match consists of\<close>

lemma skip_Some: "skip k s = Some ps \<Longrightarrow> \<exists>ps'. ps = [] # ps' \<and> k s = Some ps'"
  by (auto simp: skip_def)

lemma star_Some:
  "star c k s = Some ps \<Longrightarrow>
     \<exists>p ps' t. ps = p # ps' \<and> s = p @ t \<and> list_all (in_cls c) p \<and> k t = Some ps'"
proof (induction s arbitrary: ps)
  case Nil
  then show ?case by (auto dest: skip_Some)
next
  case (Cons x xs)
  show ?case
  proof (cases "in_cls c x \<and> star c k xs \<noteq> None")
    case True
    then obtain qs where q: "star c k xs = Some qs" by auto
    from Cons.IH [OF q] obtain p ps' t where
      "qs = p # ps'" "xs = p @ t" "list_all (in_cls c) p" "k t = Some ps'" by blast
    moreover from Cons.prems True q have "ps = cons_hd x qs" by simp
    ultimately show ?thesis using True
      by (intro exI [of _ "x # p"] exI [of _ ps'] exI [of _ t]) simp
  next
    case False
    with Cons.prems have "skip k (x # xs) = Some ps" by (auto split: if_splits)
    then show ?thesis by (auto dest!: skip_Some)
  qed
qed

lemma plus_Some:
  "plus c k s = Some ps \<Longrightarrow>
     \<exists>p ps' t. ps = p # ps' \<and> s = p @ t \<and> p \<noteq> [] \<and> list_all (in_cls c) p \<and> k t = Some ps'"
proof (cases s)
  case Nil
  assume "plus c k s = Some ps"
  with Nil show ?thesis by (simp add: plus_def)
next
  case (Cons x xs)
  assume a: "plus c k s = Some ps"
  with Cons have x: "in_cls c x" and "map_option (cons_hd x) (star c k xs) = Some ps"
    by (auto simp: plus_def split: if_splits)
  then obtain qs where q: "star c k xs = Some qs" "ps = cons_hd x qs" by auto
  from star_Some [OF q(1)] obtain p ps' t where
    "qs = p # ps'" "xs = p @ t" "list_all (in_cls c) p" "k t = Some ps'" by blast
  with q x Cons show ?thesis
    by (intro exI [of _ "x # p"] exI [of _ ps'] exI [of _ t]) simp
qed

lemma lazy_star_Some:
  "lazy_star c k s = Some ps \<Longrightarrow>
     \<exists>p ps' t. ps = p # ps' \<and> s = p @ t \<and> list_all (in_cls c) p \<and> k t = Some ps'"
proof (induction s arbitrary: ps)
  case Nil
  then show ?case by (auto dest: skip_Some)
next
  case (Cons x xs)
  show ?case
  proof (cases "skip k (x # xs)")
    case (Some qs)
    with Cons.prems have "skip k (x # xs) = Some ps" by simp
    then show ?thesis by (auto dest!: skip_Some)
  next
    case None
    with Cons.prems have x: "in_cls c x" and "map_option (cons_hd x) (lazy_star c k xs) = Some ps"
      by (auto split: if_splits)
    then obtain qs where q: "lazy_star c k xs = Some qs" "ps = cons_hd x qs" by auto
    from Cons.IH [OF q(1)] obtain p ps' t where
      "qs = p # ps'" "xs = p @ t" "list_all (in_cls c) p" "k t = Some ps'" by blast
    with q x show ?thesis
      by (intro exI [of _ "x # p"] exI [of _ ps'] exI [of _ t]) simp
  qed
qed

lemma match_item_Some:
  "match_item i k s = Some ps \<Longrightarrow>
     \<exists>p ps' t. ps = p # ps' \<and> s = p @ t \<and> piece_ok i p \<and> k t = Some ps'"
proof (cases i)
  case (Lit l)
  assume "match_item i k s = Some ps"
  with Lit show ?thesis by (auto simp: prefix_def split: if_splits)
next
  case (Star c)
  assume "match_item i k s = Some ps"
  with Star show ?thesis using star_Some [of c k s ps] by simp
next
  case (Plus c)
  assume "match_item i k s = Some ps"
  with Plus show ?thesis using plus_Some [of c k s ps] by simp
next
  case (LazyStar c)
  assume "match_item i k s = Some ps"
  with LazyStar show ?thesis using lazy_star_Some [of c k s ps] by simp
next
  case (Exactly n c)
  assume "match_item i k s = Some ps"
  with Exactly have "n \<le> length s" "list_all (in_cls c) (take n s)"
    "ps = take n s # the (k (drop n s))" "k (drop n s) = Some (the (k (drop n s)))"
    by (auto split: if_splits)
  with Exactly show ?thesis
    by (intro exI [of _ "take n s"] exI [of _ "the (k (drop n s))"] exI [of _ "drop n s"]) simp
next
  case (Opt c)
  assume a: "match_item i k s = Some ps"
  show ?thesis
  proof (cases s)
    case Nil
    with a Opt show ?thesis by (auto dest!: skip_Some)
  next
    case (Cons x xs)
    show ?thesis
    proof (cases "x = c \<and> k xs \<noteq> None")
      case True
      with a Opt Cons show ?thesis by auto
    next
      case False
      with a Opt Cons have "skip k (x # xs) = Some ps" by (auto split: if_splits)
      with Opt Cons show ?thesis by (auto dest!: skip_Some)
    qed
  qed
qed

lemma rmatch_Some:
  "rmatch re s = Some ps \<Longrightarrow> list_all2 piece_ok re ps \<and> (\<exists>t. s = concat ps @ t)"
proof (induction re arbitrary: s ps)
  case Nil
  then show ?case by simp
next
  case (Cons i re)
  from Cons.prems have "match_item i (rmatch re) s = Some ps" by simp
  from match_item_Some [OF this] obtain p ps' t where
    h: "ps = p # ps'" "s = p @ t" "piece_ok i p" "rmatch re t = Some ps'" by blast
  from Cons.IH [OF h(4)] h show ?case by auto
qed


section \<open>Scanning a text\<close>

lemma scan_Lit:
  assumes "l \<noteq> []"
  shows "scan (Lit l # re) s =
     (case rmatch (Lit l # re) s of
        Some ps \<Rightarrow> Hit ps # scan (Lit l # re) (drop (length (concat ps)) s)
      | None \<Rightarrow> (case s of [] \<Rightarrow> [] | c # cs \<Rightarrow> Gap c # scan (Lit l # re) cs))"
proof (cases "rmatch (Lit l # re) s")
  case None
  then show ?thesis by (subst scan.simps) simp
next
  case (Some ps)
  from rmatch_Some [OF Some] obtain t where t: "s = concat ps @ t"
    and ok: "list_all2 piece_ok (Lit l # re) ps" by blast
  from ok assms have "concat ps \<noteq> []" by (auto simp: list_all2_Cons1)
  then have "0 < length (concat ps)" by (simp del: concat_eq_Nil_conv)
  moreover from t have "length (concat ps) \<le> length s"
    by (metis length_append le_add1)
  ultimately show ?thesis using Some by (subst scan.simps) (simp del: length_greater_0_conv)
qed

lemma scan_hit_match: "Hit ps \<in> set (scan re s) \<Longrightarrow> \<exists>t. rmatch re t = Some ps"
proof (induction s rule: length_induct)
  case (1 s)
  note IH = "1.IH" [rule_format]
  have tl: "Hit ps \<in> set (case s of [] \<Rightarrow> [] | c # cs \<Rightarrow> Gap c # scan re cs) \<Longrightarrow> ?case"
    using IH by (cases s) auto
  show ?case
  proof (cases "rmatch re s")
    case None
    with "1.prems" tl show ?thesis
      by (subst (asm) scan.simps) simp
  next
    case (Some qs)
    show ?thesis
    proof (cases "ps = qs")
      case True
      with Some show ?thesis by blast
    next
      case False
      show ?thesis
      proof (cases "0 < length (concat qs) \<and> length (concat qs) \<le> length s")
        case True
        with "1.prems" Some False have "Hit ps \<in> set (scan re (drop (length (concat qs)) s))"
          by (subst (asm) scan.simps) (simp del: length_greater_0_conv)
        moreover from True have "length (drop (length (concat qs)) s) < length s"
          by (simp del: length_greater_0_conv)
        ultimately show ?thesis using IH by blast
      next
        case F2: False
        with "1.prems" Some False tl show ?thesis
          by (subst (asm) scan.simps) (simp del: length_greater_0_conv)
      qed
    qed
  qed
qed

lemma finditer_match: "ps \<in> set (finditer re s) \<Longrightarrow> \<exists>t. rmatch re t = Some ps"
proof -
  have "ps \<in> set (hits segs) \<Longrightarrow> Hit ps \<in> set segs" for segs
    by (induction segs rule: hits.induct) auto
  then show "ps \<in> set (finditer re s) \<Longrightarrow> \<exists>t. rmatch re t = Some ps"
    unfolding finditer_def using scan_hit_match by blast
qed

lemma scan_source:
  assumes "l \<noteq> []"
  shows "concat (map (seg_text concat) (scan (Lit l # re) s)) = s"
proof (induction s rule: length_induct)
  case (1 s)
  show ?case
  proof (cases "rmatch (Lit l # re) s")
    case None
    show ?thesis
    proof (cases s)
      case Nil
      with None show ?thesis by (subst scan_Lit [OF assms]) simp
    next
      case (Cons c cs)
      with 1 have "concat (map (seg_text concat) (scan (Lit l # re) cs)) = cs" by simp
      with None Cons show ?thesis by (subst scan_Lit [OF assms]) simp
    qed
  next
    case (Some ps)
    from rmatch_Some [OF Some] obtain t where t: "s = concat ps @ t"
      and ok: "list_all2 piece_ok (Lit l # re) ps" by blast
    from ok assms have ne: "concat ps \<noteq> []" by (auto simp: list_all2_Cons1)
    from t have d: "drop (length (concat ps)) s = t"
      by (metis append_eq_conv_conj)
    from t ne have "length t < length s"
      by (metis length_append length_greater_0_conv less_add_same_cancel2)
    with 1 have "concat (map (seg_text concat) (scan (Lit l # re) t)) = t" by blast
    with Some d t show ?thesis by (subst scan_Lit [OF assms]) simp
  qed
qed

lemma map_seg_text_cong:
  "(\<And>ps. Hit ps \<in> set segs \<Longrightarrow> f ps = g ps) \<Longrightarrow> map (seg_text f) segs = map (seg_text g) segs"
proof (rule map_cong [OF refl])
  fix x assume "\<And>ps. Hit ps \<in> set segs \<Longrightarrow> f ps = g ps" "x \<in> set segs"
  then show "seg_text f x = seg_text g x" by (cases x) auto
qed

lemma country_re_pieces:
  assumes "rmatch country_re t = Some ps"
  shows "length ps = 22" and "digits (ps ! 13)" and "digits (ps ! 21)"
    and "concat ps = concat (take 13 ps) @ ps ! 13 @ concat (take 7 (drop 14 ps)) @ ps ! 21"
proof -
  from rmatch_Some [OF assms] have ok: "list_all2 piece_ok country_re ps" by blast
  then obtain p0 p1 p2 p3 p4 p5 p6 p7 p8 p9 p10 p11 p12 p13 p14 p15 p16 p17 p18 p19 p20 p21
    where ps: "ps = [p0, p1, p2, p3, p4, p5, p6, p7, p8, p9, p10, p11, p12, p13, p14, p15,
                     p16, p17, p18, p19, p20, p21]"
      and d: "piece_ok (Plus Digit) p13" "piece_ok (Plus Digit) p21"
    unfolding country_re_def by (auto simp: list_all2_Cons1)
  from ps show "length ps = 22" by simp
  from ps d show "digits (ps ! 13)" by (simp add: digits_def list_all_iff)
  from ps d show "digits (ps ! 21)" by (simp add: digits_def list_all_iff)
  from ps show "concat ps = concat (take 13 ps) @ ps ! 13 @ concat (take 7 (drop 14 ps)) @ ps ! 21"
    by simp
qed


section \<open>The replacement of one match\<close>

lemma scan_nth_finditer:
  "i < length (scan re s) \<Longrightarrow> scan re s ! i = Hit ps \<Longrightarrow> \<exists>t. rmatch re t = Some ps"
  using scan_hit_match [of ps re s] nth_mem [of i "scan re s"] by auto

lemma match_groups:
  assumes "rmatch country_re t = Some ps"
  shows "group0 (mk_match ps) = group1 (mk_match ps) @ group_min (mk_match ps)
            @ group4 (mk_match ps) @ group_max (mk_match ps)"
    and "digits (group_min (mk_match ps))" and "digits (group_max (mk_match ps))"
  using country_re_pieces [OF assms] by (simp_all add: mk_match_def)

lemma py_int_digits_nonneg: "digits s \<Longrightarrow> \<exists>n. py_int s = Some n \<and> 0 \<le> n"
  by (simp add: digits_def py_int_digits)

lemma digits_py_str: "0 \<le> n \<Longrightarrow> digits (py_str n)"
  by (simp add: digits_def py_str_digits)

text \<open>What \<open>replacer\<close> returns for a match of the pattern with usable authoritative data.\<close>

lemma replacer_values:
  assumes g: "group0 m = group1 m @ group_min m @ group4 m @ group_max m"
    and dm: "digits (group_min m)" and dx: "digits (group_max m)"
    and L: "L (group_code m) = Some (auth_min, auth_max)" and pos: "0 < auth_min"
    and cm: "py_int (group_min m) = Some current_min"
    and cx: "py_int (group_max m) = Some current_max"
  shows "\<exists>mn mx. replacer L m = group1 m @ mn @ group4 m @ mx \<and> digits mn \<and> digits mx
           \<and> py_int mn = Some (new_min auth_min current_min)
           \<and> py_int mx = Some (new_max auth_max current_max)"
proof (cases "new_min auth_min current_min = current_min \<and> new_max auth_max current_max = current_max")
  case True
  with L pos cm cx have "replacer L m = group0 m" by (simp add: replacer_def)
  with g True cm cx dm dx show ?thesis by auto
next
  case False
  with L pos cm cx have r: "replacer L m = group1 m @ py_str (new_min auth_min current_min)
      @ group4 m @ py_str (new_max auth_max current_max)"
    by (auto simp: replacer_def)
  from py_int_digits_nonneg [OF dm] cm have "0 \<le> current_min" by simp
  with pos have 1: "0 \<le> new_min auth_min current_min" by (simp add: new_min_def)
  from py_int_digits_nonneg [OF dx] cx have "0 \<le> current_max" by simp
  then have 2: "0 \<le> new_max auth_max current_max" by (simp add: new_max_def)
  from r 1 2 show ?thesis
    by (intro exI [of _ "py_str (new_min auth_min current_min)"]
              exI [of _ "py_str (new_max auth_max current_max)"])
       (simp add: digits_py_str py_int_py_str)
qed

lemma replacer_frame:
  assumes g: "group0 m = group1 m @ group_min m @ group4 m @ group_max m"
    and dm: "digits (group_min m)" and dx: "digits (group_max m)"
  shows "\<exists>mn mx. digits mn \<and> digits mx \<and> replacer L m = group1 m @ mn @ group4 m @ mx"
proof (cases "replacer L m = group0 m")
  case True
  with g dm dx show ?thesis by auto
next
  case False
  then obtain a b where L: "L (group_code m) = Some (a, b)" and pos: "0 < a"
    by (auto simp: replacer_def split: option.splits if_splits)
  from py_int_digits_nonneg [OF dm] obtain cm where cm: "py_int (group_min m) = Some cm" by blast
  from py_int_digits_nonneg [OF dx] obtain cx where cx: "py_int (group_max m) = Some cx" by blast
  from replacer_values [where L = L, OF g dm dx L pos cm cx] show ?thesis by blast
qed

lemma update_lengths_segs: "update_lengths s L = concat (patched_segs s L)"
  by (simp add: update_lengths_def re_sub_def patched_segs_def)

lemma source_segs_concat: "concat (source_segs s) = s"
  unfolding source_segs_def country_re_def by (rule scan_source) simp

lemma patched_nth:
  "i < length (scan country_re s) \<Longrightarrow> scan country_re s ! i = Hit ps \<Longrightarrow>
     patched_segs s L ! i = replacer L (mk_match ps) \<and> source_segs s ! i = concat ps"
  by (simp add: patched_segs_def source_segs_def)


section \<open>The new lengths of a matched entry\<close>

lemma example_scan:
  "scan country_re example_source =
     [Gap (CHR ''[''), Hit example_pieces, Gap (CHR '')''), Gap (CHR '']'')]"
  by code_simp

lemma example_groups:
  "group_code (mk_match example_pieces) = ''US''"
  "group_min (mk_match example_pieces) = ''10''"
  "group_max (mk_match example_pieces) = ''10''"
  "group1 (mk_match example_pieces) = ''Country(code: \"US\",minLength: ''"
  "group4 (mk_match example_pieces) = '',\<newline>maxLength: ''"
  by (simp_all add: mk_match_def example_pieces_def)






section \<open>Entries that keep their lengths\<close>

lemma hits_set: "ps \<in> set (hits segs) \<longleftrightarrow> Hit ps \<in> set segs"
  by (induction segs rule: hits.induct) auto

lemma replacer_unchanged:
  assumes dm: "digits (group_min m)" and dx: "digits (group_max m)"
    and same: "\<And>a b cm cx. L (group_code m) = Some (a, b) \<Longrightarrow> 0 < a \<Longrightarrow>
        py_int (group_min m) = Some cm \<Longrightarrow> py_int (group_max m) = Some cx \<Longrightarrow>
        new_min a cm = cm \<and> new_max b cx = cx"
  shows "replacer L m = group0 m"
proof (cases "L (group_code m)")
  case None
  then show ?thesis by (simp add: replacer_def)
next
  case (Some ab)
  obtain a b where ab: "ab = (a, b)" by (cases ab)
  from py_int_digits_nonneg [OF dm] obtain cm where cm: "py_int (group_min m) = Some cm" by blast
  from py_int_digits_nonneg [OF dx] obtain cx where cx: "py_int (group_max m) = Some cx" by blast
  show ?thesis
  proof (cases "0 < a")
    case True
    from same [OF _ True cm cx] Some ab have "new_min a cm = cm \<and> new_max b cx = cx" by simp
    with Some ab cm cx show ?thesis by (simp add: replacer_def)
  next
    case False
    with Some ab show ?thesis by (simp add: replacer_def)
  qed
qed

lemma update_lengths_unchanged:
  assumes "\<And>ps. ps \<in> set (finditer country_re s) \<Longrightarrow> replacer L (mk_match ps) = group0 (mk_match ps)"
  shows "update_lengths s L = s"
proof -
  have "map (seg_text (\<lambda>ps. replacer L (mk_match ps))) (scan country_re s)
      = map (seg_text concat) (scan country_re s)"
  proof (rule map_seg_text_cong)
    fix ps assume "Hit ps \<in> set (scan country_re s)"
    then have "ps \<in> set (finditer country_re s)" by (simp add: finditer_def hits_set)
    from assms [OF this] show "replacer L (mk_match ps) = concat ps" by (simp add: mk_match_def)
  qed
  then have "patched_segs s L = source_segs s" by (simp add: patched_segs_def source_segs_def)
  then show ?thesis by (simp add: update_lengths_segs source_segs_concat)
qed

text \<open>
  C3: if for every matched entry with usable authoritative data the new minimum and the new
  maximum are the current ones, \<open>update_lengths\<close> returns its input; in particular when
  the mapping gives every matched code the pair of its current lengths.
\<close>

theorem no_change_roundtrip:
  "((\<forall>ps \<in> set (finditer country_re s). \<forall>a b cm cx.
        L (group_code (mk_match ps)) = Some (a, b) \<longrightarrow> 0 < a \<longrightarrow>
        py_int (group_min (mk_match ps)) = Some cm \<longrightarrow>
        py_int (group_max (mk_match ps)) = Some cx \<longrightarrow>
        new_min a cm = cm \<and> new_max b cx = cx)
     \<longrightarrow> update_lengths s L = s)
   \<and> ((\<forall>ps \<in> set (finditer country_re s). \<exists>cm cx.
        py_int (group_min (mk_match ps)) = Some cm \<and> py_int (group_max (mk_match ps)) = Some cx
        \<and> L (group_code (mk_match ps)) = Some (cm, cx))
     \<longrightarrow> update_lengths s L = s)"
proof (intro conjI impI)
  assume h: "\<forall>ps \<in> set (finditer country_re s). \<forall>a b cm cx.
        L (group_code (mk_match ps)) = Some (a, b) \<longrightarrow> 0 < a \<longrightarrow>
        py_int (group_min (mk_match ps)) = Some cm \<longrightarrow>
        py_int (group_max (mk_match ps)) = Some cx \<longrightarrow>
        new_min a cm = cm \<and> new_max b cx = cx"
  show "update_lengths s L = s"
  proof (rule update_lengths_unchanged)
    fix ps assume ps: "ps \<in> set (finditer country_re s)"
    from finditer_match [OF ps] obtain t where t: "rmatch country_re t = Some ps" by blast
    show "replacer L (mk_match ps) = group0 (mk_match ps)"
      by (rule replacer_unchanged [OF match_groups(2,3) [OF t]]) (use h ps in blast)
  qed
next
  assume h: "\<forall>ps \<in> set (finditer country_re s). \<exists>cm cx.
        py_int (group_min (mk_match ps)) = Some cm \<and> py_int (group_max (mk_match ps)) = Some cx
        \<and> L (group_code (mk_match ps)) = Some (cm, cx)"
  show "update_lengths s L = s"
  proof (rule update_lengths_unchanged)
    fix ps assume ps: "ps \<in> set (finditer country_re s)"
    from finditer_match [OF ps] obtain t where t: "rmatch country_re t = Some ps" by blast
    from h ps obtain cm cx where c: "py_int (group_min (mk_match ps)) = Some cm"
      "py_int (group_max (mk_match ps)) = Some cx" "L (group_code (mk_match ps)) = Some (cm, cx)"
      by blast
    show "replacer L (mk_match ps) = group0 (mk_match ps)"
      by (rule replacer_unchanged [OF match_groups(2,3) [OF t]])
         (use c in \<open>simp add: new_min_def new_max_def\<close>)
  qed
qed

lemma example_finditer: "finditer country_re example_source = [example_pieces]"
  by (simp add: finditer_def example_scan)

theorem no_change_roundtrip_witness:
  "finditer country_re example_source = [example_pieces]
   \<and> py_int (group_min (mk_match example_pieces)) = Some 10
   \<and> py_int (group_max (mk_match example_pieces)) = Some 10
   \<and> [''US'' \<mapsto> (10 :: int, 10 :: int)] (group_code (mk_match example_pieces)) = Some (10, 10)
   \<and> new_min 10 10 = 10 \<and> new_max 10 10 = 10
   \<and> update_lengths example_source [''US'' \<mapsto> (10, 10)] = example_source"
proof -
  have 4: "py_int (group_min (mk_match example_pieces)) = Some 10"
    by (simp add: example_groups py_int_10)
  have 5: "py_int (group_max (mk_match example_pieces)) = Some 10"
    by (simp add: example_groups py_int_10)
  have 3: "[''US'' \<mapsto> (10 :: int, 10 :: int)] (group_code (mk_match example_pieces)) = Some (10, 10)"
    by (simp add: example_groups)
  have n: "new_min 10 10 = 10" "new_max 10 10 = 10" by (simp_all add: new_min_def new_max_def)
  have h1: "\<forall>ps \<in> set (finditer country_re example_source). \<forall>a b cm cx.
        [''US'' \<mapsto> (10 :: int, 10 :: int)] (group_code (mk_match ps)) = Some (a, b) \<longrightarrow> 0 < a \<longrightarrow>
        py_int (group_min (mk_match ps)) = Some cm \<longrightarrow>
        py_int (group_max (mk_match ps)) = Some cx \<longrightarrow>
        new_min a cm = cm \<and> new_max b cx = cx"
    using 3 4 5 n by (simp add: example_finditer)
  have h2: "\<forall>ps \<in> set (finditer country_re example_source). \<exists>cm cx.
        py_int (group_min (mk_match ps)) = Some cm \<and> py_int (group_max (mk_match ps)) = Some cx
        \<and> [''US'' \<mapsto> (10 :: int, 10 :: int)] (group_code (mk_match ps)) = Some (cm, cx)"
    using 3 4 5 by (simp add: example_finditer)
  from no_change_roundtrip [of example_source "[''US'' \<mapsto> (10, 10)]"] h1 h2
  have "update_lengths example_source [''US'' \<mapsto> (10, 10)] = example_source" by blast
  with 3 4 5 n example_finditer show ?thesis by simp
qed


section \<open>Entries left alone, and what is never touched\<close>




text \<open>
  C5: the result consists of the same segments as the source.  A character outside the
  matched entries is copied; a matched entry keeps its group 1 (everything up to the
  \<^verbatim>\<open>minLength\<close> number) and its group 4 (everything between the two numbers), and has a
  decimal number where the source has one.
\<close>

theorem frame_preserved:
  "list_all2 same_frame (scan country_re s) (patched_segs s L)
   \<and> concat (source_segs s) = s \<and> concat (patched_segs s L) = update_lengths s L"
proof -
  have "same_frame (scan country_re s ! i) (patched_segs s L ! i)"
    if i: "i < length (scan country_re s)" for i
  proof (cases "scan country_re s ! i")
    case (Gap c)
    with i show ?thesis by (simp add: patched_segs_def)
  next
    case (Hit ps)
    from scan_nth_finditer [OF i Hit] obtain t where t: "rmatch country_re t = Some ps" by blast
    note g = match_groups [OF t]
    from replacer_frame [OF g, of L] obtain mn mx where
      "digits mn" "digits mx"
      "replacer L (mk_match ps) = group1 (mk_match ps) @ mn @ group4 (mk_match ps) @ mx"
      by blast
    moreover have "concat ps = group0 (mk_match ps)" by (simp add: mk_match_def)
    ultimately show ?thesis using Hit g patched_nth [OF i Hit, of L]
      by (simp del: append_assoc) blast
  qed
  then have "list_all2 same_frame (scan country_re s) (patched_segs s L)"
    by (simp add: list_all2_conv_all_nth patched_segs_def)
  then show ?thesis by (simp add: source_segs_concat update_lengths_segs)
qed


section \<open>The diff of the two datasets\<close>

lemma dict_set_keys: "fst ` set (dict_set d k v) = insert k (fst ` set d)"
  by (induction d k v rule: dict_set.induct) auto

lemma dict_set_distinct: "distinct (map fst d) \<Longrightarrow> distinct (map fst (dict_set d k v))"
proof (induction d k v rule: dict_set.induct)
  case (1 k v)
  then show ?case by simp
next
  case (2 k' v' d k v)
  then show ?case
    using dict_set_keys [of d k v] by (auto simp: image_iff)
qed

lemma index_distinct_aux:
  "distinct (map fst d) \<Longrightarrow> distinct (map fst (foldl (\<lambda>d r. dict_set d (code r) r) d rows))"
  by (induction rows arbitrary: d) (simp_all add: dict_set_distinct)

lemma index_by_code_distinct: "distinct (map fst (index_by_code rows))"
  by (simp add: index_by_code_def index_distinct_aux)

lemma index_keys_aux:
  "fst ` set (foldl (\<lambda>d r. dict_set d (code r) r) d rows) = fst ` set d \<union> code ` set rows"
  by (induction rows arbitrary: d) (auto simp: dict_set_keys)

lemma index_by_code_keys: "fst ` set (index_by_code rows) = code ` set rows"
  by (simp add: index_by_code_def index_keys_aux)

lemma diff_loop_acc: "diff_loop items auth diffs = diffs @ diff_loop items auth []"
proof (induction items arbitrary: diffs)
  case Nil
  then show ?case by simp
next
  case (Cons it items)
  obtain c cur where it: "it = (c, cur)" by (cases it)
  show ?case
  proof (cases "map_of auth c")
    case None
    with it Cons [of "diffs @ [missing_row c cur]"] Cons [of "[missing_row c cur]"]
    show ?thesis by simp
  next
    case (Some a)
    with it Cons [of "diffs @ [mismatch_row c cur a]"] Cons [of "[mismatch_row c cur a]"] Cons [of diffs]
    show ?thesis by simp
  qed
qed

text \<open>The rows that the loop appends for one item.\<close>

lemma diff_loop_Cons:
  "diff_loop ((c, cur) # items) auth [] =
     (case map_of auth c of
        None \<Rightarrow> [missing_row c cur]
      | Some a \<Rightarrow> if has_diff cur a then [mismatch_row c cur a] else [])
     @ diff_loop items auth []"
  using diff_loop_acc [of items auth "[missing_row c cur]"]
    diff_loop_acc [of items auth "[mismatch_row c cur (the (map_of auth c))]"]
  by (auto split: option.splits)

lemma diff_loop_codes: "r \<in> set (diff_loop items auth []) \<Longrightarrow> diff_code r \<in> fst ` set items"
proof (induction items)
  case Nil
  then show ?case by simp
next
  case (Cons it items)
  obtain c cur where it: "it = (c, cur)" by (cases it)
  from Cons.prems it have
    "r \<in> set (case map_of auth c of
        None \<Rightarrow> [missing_row c cur]
      | Some a \<Rightarrow> if has_diff cur a then [mismatch_row c cur a] else [])
     \<or> r \<in> set (diff_loop items auth [])"
    by (simp add: diff_loop_Cons del: diff_loop.simps)
  then show ?case
  proof
    assume "r \<in> set (case map_of auth c of
        None \<Rightarrow> [missing_row c cur]
      | Some a \<Rightarrow> if has_diff cur a then [mismatch_row c cur a] else [])"
    then have "diff_code r = c"
      by (auto simp: missing_row_def mismatch_row_def split: option.splits if_splits)
    with it show ?thesis by simp
  next
    assume "r \<in> set (diff_loop items auth [])"
    with Cons.IH it show ?thesis by auto
  qed
qed

lemma diff_loop_filter:
  assumes "distinct (map fst items)"
  shows "filter (\<lambda>r. diff_code r = c) (diff_loop items auth []) =
     (case map_of items c of
        None \<Rightarrow> []
      | Some cur \<Rightarrow>
          (case map_of auth c of
             None \<Rightarrow> [missing_row c cur]
           | Some a \<Rightarrow> if has_diff cur a then [mismatch_row c cur a] else []))"
  using assms
proof (induction items)
  case Nil
  then show ?case by simp
next
  case (Cons it items)
  obtain c' cur where it: "it = (c', cur)" by (cases it)
  from Cons.prems it have d: "distinct (map fst items)" and nin: "c' \<notin> fst ` set items"
    by auto
  show ?case
  proof (cases "c' = c")
    case True
    with nin have "filter (\<lambda>r. diff_code r = c) (diff_loop items auth []) = []"
      using diff_loop_codes [of _ items auth] by (auto simp: filter_empty_conv)
    with True it show ?thesis
      by (auto simp: diff_loop_Cons missing_row_def mismatch_row_def simp del: diff_loop.simps
          split: option.splits)
  next
    case False
    with it Cons.IH [OF d] show ?thesis
      by (auto simp: diff_loop_Cons missing_row_def mismatch_row_def simp del: diff_loop.simps
          split: option.splits)
  qed
qed

lemma map_of_index_None: "c \<notin> code ` set rows \<Longrightarrow> map_of (index_by_code rows) c = None"
  using index_by_code_keys [of rows] by (simp add: map_of_eq_None_iff)

text \<open>
  C8: the rows of the diff for one code.  A code that is not among the current rows has
  none, so a code that only the authoritative rows have is not reported.  For a code of the
  current rows, with \<open>cur\<close> its row in the index: without an authoritative row there is
  the one row that says so, with blank authoritative columns; with an authoritative row
  there is no row when dial code, minimum and maximum agree, and otherwise the one row
  with the values of both sides.
\<close>

theorem diff_rows_per_code:
  "(c \<notin> code ` set current_rows \<longrightarrow>
      filter (\<lambda>r. diff_code r = c) (build_diff_rows current_rows authoritative_rows) = [])
   \<and> (map_of (index_by_code current_rows) c = Some cur
        \<and> map_of (index_by_code authoritative_rows) c = None \<longrightarrow>
      filter (\<lambda>r. diff_code r = c) (build_diff_rows current_rows authoritative_rows)
        = [\<lparr>diff_code = c, current_name = name cur, authoritative_name = [],
            current_dial_code = dial_code cur, authoritative_dial_code = [],
            current_min_length = py_str (min_length cur), authoritative_min_length = [],
            current_max_length = py_str (max_length cur), authoritative_max_length = [],
            diff_note = ''Missing in authoritative''\<rparr>])
   \<and> (map_of (index_by_code current_rows) c = Some cur
        \<and> map_of (index_by_code authoritative_rows) c = Some auth
        \<and> dial_code cur = dial_code auth \<and> min_length cur = min_length auth
        \<and> max_length cur = max_length auth \<longrightarrow>
      filter (\<lambda>r. diff_code r = c) (build_diff_rows current_rows authoritative_rows) = [])
   \<and> (map_of (index_by_code current_rows) c = Some cur
        \<and> map_of (index_by_code authoritative_rows) c = Some auth
        \<and> (dial_code cur \<noteq> dial_code auth \<or> min_length cur \<noteq> min_length auth
             \<or> max_length cur \<noteq> max_length auth) \<longrightarrow>
      filter (\<lambda>r. diff_code r = c) (build_diff_rows current_rows authoritative_rows)
        = [\<lparr>diff_code = c, current_name = name cur, authoritative_name = name auth,
            current_dial_code = dial_code cur, authoritative_dial_code = dial_code auth,
            current_min_length = py_str (min_length cur),
            authoritative_min_length = py_str (min_length auth),
            current_max_length = py_str (max_length cur),
            authoritative_max_length = py_str (max_length auth),
            diff_note = []\<rparr>])"
proof -
  note f = diff_loop_filter [OF index_by_code_distinct, of c current_rows
      "index_by_code authoritative_rows"]
  show ?thesis
  proof (intro conjI impI)
    assume "c \<notin> code ` set current_rows"
    from map_of_index_None [OF this] f
    show "filter (\<lambda>r. diff_code r = c) (build_diff_rows current_rows authoritative_rows) = []"
      by (simp add: build_diff_rows_def)
  qed (use f in \<open>simp_all add: build_diff_rows_def has_diff_def missing_row_def mismatch_row_def\<close>)
qed

lemma example_index_current:
  "index_by_code example_current =
     [(''US'', \<lparr>code = ''US'', name = ''United States'', dial_code = ''1'', min_length = 10, max_length = 10\<rparr>),
      (''ZZ'', \<lparr>code = ''ZZ'', name = ''Nowhere'', dial_code = ''999'', min_length = 5, max_length = 6\<rparr>),
      (''DE'', \<lparr>code = ''DE'', name = ''Germany'', dial_code = ''49'', min_length = 3, max_length = 14\<rparr>)]"
  by (simp add: index_by_code_def example_current_def)

lemma example_index_authoritative:
  "index_by_code example_authoritative =
     [(''US'', \<lparr>code = ''US'', name = ''United States'', dial_code = ''1'', min_length = 7, max_length = 10\<rparr>),
      (''DE'', \<lparr>code = ''DE'', name = ''Germany'', dial_code = ''49'', min_length = 3, max_length = 14\<rparr>),
      (''FR'', \<lparr>code = ''FR'', name = ''France'', dial_code = ''33'', min_length = 9, max_length = 9\<rparr>)]"
  by (simp add: index_by_code_def example_authoritative_def)

lemma py_str_examples:
  "py_str 5 = ''5''" "py_str 6 = ''6''" "py_str 7 = ''7''" "py_str 10 = ''10''"
  by code_simp+

theorem diff_rows_per_code_witness:
  "filter (\<lambda>r. diff_code r = ''FR'') (build_diff_rows example_current example_authoritative) = []
   \<and> filter (\<lambda>r. diff_code r = ''ZZ'') (build_diff_rows example_current example_authoritative)
       = [\<lparr>diff_code = ''ZZ'', current_name = ''Nowhere'', authoritative_name = [],
           current_dial_code = ''999'', authoritative_dial_code = [],
           current_min_length = ''5'', authoritative_min_length = [],
           current_max_length = ''6'', authoritative_max_length = [],
           diff_note = ''Missing in authoritative''\<rparr>]
   \<and> filter (\<lambda>r. diff_code r = ''DE'') (build_diff_rows example_current example_authoritative) = []
   \<and> filter (\<lambda>r. diff_code r = ''US'') (build_diff_rows example_current example_authoritative)
       = [\<lparr>diff_code = ''US'', current_name = ''United States'',
           authoritative_name = ''United States'',
           current_dial_code = ''1'', authoritative_dial_code = ''1'',
           current_min_length = ''10'', authoritative_min_length = ''7'',
           current_max_length = ''10'', authoritative_max_length = ''10'',
           diff_note = []\<rparr>]"
proof -
  have fr: "''FR'' \<notin> code ` set example_current" by (simp add: example_current_def)
  have zz: "map_of (index_by_code example_current) ''ZZ''
      = Some \<lparr>code = ''ZZ'', name = ''Nowhere'', dial_code = ''999'', min_length = 5, max_length = 6\<rparr>"
    "map_of (index_by_code example_authoritative) ''ZZ'' = None"
    by (simp_all add: example_index_current example_index_authoritative)
  have de: "map_of (index_by_code example_current) ''DE''
      = Some \<lparr>code = ''DE'', name = ''Germany'', dial_code = ''49'', min_length = 3, max_length = 14\<rparr>"
    "map_of (index_by_code example_authoritative) ''DE''
      = Some \<lparr>code = ''DE'', name = ''Germany'', dial_code = ''49'', min_length = 3, max_length = 14\<rparr>"
    by (simp_all add: example_index_current example_index_authoritative)
  have us: "map_of (index_by_code example_current) ''US''
      = Some \<lparr>code = ''US'', name = ''United States'', dial_code = ''1'', min_length = 10, max_length = 10\<rparr>"
    "map_of (index_by_code example_authoritative) ''US''
      = Some \<lparr>code = ''US'', name = ''United States'', dial_code = ''1'', min_length = 7, max_length = 10\<rparr>"
    by (simp_all add: example_index_current example_index_authoritative)
  from diff_rows_per_code [where c = "''FR''" and current_rows = example_current
      and authoritative_rows = example_authoritative] fr
  have 1: "filter (\<lambda>r. diff_code r = ''FR'') (build_diff_rows example_current example_authoritative) = []"
    by blast
  from diff_rows_per_code [where c = "''ZZ''" and current_rows = example_current
      and cur = "\<lparr>code = ''ZZ'', name = ''Nowhere'', dial_code = ''999'', min_length = 5, max_length = 6\<rparr>"
      and authoritative_rows = example_authoritative] zz
  have 2: "filter (\<lambda>r. diff_code r = ''ZZ'') (build_diff_rows example_current example_authoritative)
       = [\<lparr>diff_code = ''ZZ'', current_name = ''Nowhere'', authoritative_name = [],
           current_dial_code = ''999'', authoritative_dial_code = [],
           current_min_length = ''5'', authoritative_min_length = [],
           current_max_length = ''6'', authoritative_max_length = [],
           diff_note = ''Missing in authoritative''\<rparr>]"
    by (simp add: py_str_examples)
  from diff_rows_per_code [where c = "''DE''" and current_rows = example_current
      and cur = "\<lparr>code = ''DE'', name = ''Germany'', dial_code = ''49'', min_length = 3, max_length = 14\<rparr>"
      and authoritative_rows = example_authoritative
      and auth = "\<lparr>code = ''DE'', name = ''Germany'', dial_code = ''49'', min_length = 3, max_length = 14\<rparr>"] de
  have 3: "filter (\<lambda>r. diff_code r = ''DE'') (build_diff_rows example_current example_authoritative) = []"
    by simp
  from diff_rows_per_code [where c = "''US''" and current_rows = example_current
      and cur = "\<lparr>code = ''US'', name = ''United States'', dial_code = ''1'', min_length = 10, max_length = 10\<rparr>"
      and authoritative_rows = example_authoritative
      and auth = "\<lparr>code = ''US'', name = ''United States'', dial_code = ''1'', min_length = 7, max_length = 10\<rparr>"] us
  have 4: "filter (\<lambda>r. diff_code r = ''US'') (build_diff_rows example_current example_authoritative)
       = [\<lparr>diff_code = ''US'', current_name = ''United States'',
           authoritative_name = ''United States'',
           current_dial_code = ''1'', authoritative_dial_code = ''1'',
           current_min_length = ''10'', authoritative_min_length = ''7'',
           current_max_length = ''10'', authoritative_max_length = ''10'',
           diff_note = []\<rparr>]"
    by (simp add: py_str_examples)
  from 1 2 3 4 show ?thesis by blast
qed


section \<open>Parsing the local data file\<close>










section \<open>Which way a repetition matches\<close>

lemma skip_None: "skip k s = None \<longleftrightarrow> k s = None"
  by (simp add: skip_def)

lemma skip_eq_Some: "k s = Some ps \<Longrightarrow> skip k s = Some ([] # ps)"
  by (simp add: skip_def)

text \<open>A repetition fails exactly when the rest of the pattern fails behind every prefix it can take.\<close>

lemma star_None_iff:
  "star c k s = None \<longleftrightarrow> (\<forall>q r. s = q @ r \<longrightarrow> list_all (in_cls c) q \<longrightarrow> k r = None)"
proof (induction s)
  case Nil
  then show ?case by (simp add: skip_def)
next
  case (Cons x xs)
  show ?case
  proof
    assume n: "star c k (x # xs) = None"
    then have kn: "k (x # xs) = None" by (auto simp: skip_def split: if_splits option.splits)
    show "\<forall>q r. x # xs = q @ r \<longrightarrow> list_all (in_cls c) q \<longrightarrow> k r = None"
    proof (intro allI impI)
      fix q r assume e: "x # xs = q @ r" and a: "list_all (in_cls c) q"
      show "k r = None"
      proof (cases q)
        case Nil
        with e kn show ?thesis by simp
      next
        case (Cons y q')
        with e a have x: "in_cls c x" "xs = q' @ r" "list_all (in_cls c) q'" by auto
        with n have "star c k xs = None" by (auto simp: skip_def split: option.splits)
        with Cons.IH x show ?thesis by blast
      qed
    qed
  next
    assume a: "\<forall>q r. x # xs = q @ r \<longrightarrow> list_all (in_cls c) q \<longrightarrow> k r = None"
    from a [rule_format, of "[]" "x # xs"] have kn: "k (x # xs) = None" by simp
    show "star c k (x # xs) = None"
    proof (cases "in_cls c x")
      case True
      have "\<forall>q r. xs = q @ r \<longrightarrow> list_all (in_cls c) q \<longrightarrow> k r = None"
      proof (intro allI impI)
        fix q r assume "xs = q @ r" "list_all (in_cls c) q"
        with True a [rule_format, of "x # q" r] show "k r = None" by simp
      qed
      with Cons.IH have "star c k xs = None" by blast
      with kn True show ?thesis by (simp add: skip_def)
    next
      case False
      with kn show ?thesis by (simp add: skip_def)
    qed
  qed
qed

lemma lazy_star_None_iff:
  "lazy_star c k s = None \<longleftrightarrow> (\<forall>q r. s = q @ r \<longrightarrow> list_all (in_cls c) q \<longrightarrow> k r = None)"
proof (induction s)
  case Nil
  then show ?case by (simp add: skip_def)
next
  case (Cons x xs)
  show ?case
  proof
    assume n: "lazy_star c k (x # xs) = None"
    then have kn: "k (x # xs) = None" by (auto simp: skip_def split: if_splits option.splits)
    show "\<forall>q r. x # xs = q @ r \<longrightarrow> list_all (in_cls c) q \<longrightarrow> k r = None"
    proof (intro allI impI)
      fix q r assume e: "x # xs = q @ r" and a: "list_all (in_cls c) q"
      show "k r = None"
      proof (cases q)
        case Nil
        with e kn show ?thesis by simp
      next
        case (Cons y q')
        with e a have x: "in_cls c x" "xs = q' @ r" "list_all (in_cls c) q'" by auto
        with n kn have "lazy_star c k xs = None" by (auto simp: skip_def split: option.splits)
        with Cons.IH x show ?thesis by blast
      qed
    qed
  next
    assume a: "\<forall>q r. x # xs = q @ r \<longrightarrow> list_all (in_cls c) q \<longrightarrow> k r = None"
    from a [rule_format, of "[]" "x # xs"] have kn: "k (x # xs) = None" by simp
    show "lazy_star c k (x # xs) = None"
    proof (cases "in_cls c x")
      case True
      have "\<forall>q r. xs = q @ r \<longrightarrow> list_all (in_cls c) q \<longrightarrow> k r = None"
      proof (intro allI impI)
        fix q r assume "xs = q @ r" "list_all (in_cls c) q"
        with True a [rule_format, of "x # q" r] show "k r = None" by simp
      qed
      with Cons.IH have "lazy_star c k xs = None" by blast
      with kn True show ?thesis by (simp add: skip_def)
    next
      case False
      with kn show ?thesis by (simp add: skip_def)
    qed
  qed
qed

lemma plus_None_iff:
  "plus c k s = None \<longleftrightarrow>
     (\<forall>q r. s = q @ r \<longrightarrow> q \<noteq> [] \<longrightarrow> list_all (in_cls c) q \<longrightarrow> k r = None)"
proof (cases s)
  case Nil
  then show ?thesis by (simp add: plus_def)
next
  case (Cons x xs)
  show ?thesis
  proof (cases "in_cls c x")
    case True
    have "(\<forall>q r. xs = q @ r \<longrightarrow> list_all (in_cls c) q \<longrightarrow> k r = None)
        \<longleftrightarrow> (\<forall>q r. x # xs = q @ r \<longrightarrow> q \<noteq> [] \<longrightarrow> list_all (in_cls c) q \<longrightarrow> k r = None)"
    proof
      assume a: "\<forall>q r. xs = q @ r \<longrightarrow> list_all (in_cls c) q \<longrightarrow> k r = None"
      show "\<forall>q r. x # xs = q @ r \<longrightarrow> q \<noteq> [] \<longrightarrow> list_all (in_cls c) q \<longrightarrow> k r = None"
      proof (intro allI impI)
        fix q r assume "x # xs = q @ r" "q \<noteq> []" "list_all (in_cls c) q"
        then obtain q' where "q = x # q'" "xs = q' @ r" "list_all (in_cls c) q'"
          by (cases q) auto
        with a show "k r = None" by blast
      qed
    next
      assume a: "\<forall>q r. x # xs = q @ r \<longrightarrow> q \<noteq> [] \<longrightarrow> list_all (in_cls c) q \<longrightarrow> k r = None"
      show "\<forall>q r. xs = q @ r \<longrightarrow> list_all (in_cls c) q \<longrightarrow> k r = None"
      proof (intro allI impI)
        fix q r assume "xs = q @ r" "list_all (in_cls c) q"
        with True a [rule_format, of "x # q" r] show "k r = None" by simp
      qed
    qed
    with Cons True show ?thesis by (simp add: plus_def star_None_iff)
  next
    case False
    have "k r = None" if "x # xs = q @ r" "q \<noteq> []" "list_all (in_cls c) q" for q r
      using that False by (cases q) auto
    with Cons False show ?thesis by (auto simp: plus_def)
  qed
qed

text \<open>
  A greedy repetition takes \<open>p\<close> when the rest of the pattern matches behind \<open>p\<close> and
  behind no longer prefix; a lazy one when it matches behind \<open>p\<close> and behind no shorter one.
\<close>

lemma star_intro:
  assumes "list_all (in_cls c) p" and "k t = Some ps"
    and "\<forall>q r. t = q @ r \<longrightarrow> q \<noteq> [] \<longrightarrow> list_all (in_cls c) q \<longrightarrow> k r = None"
  shows "star c k (p @ t) = Some (p # ps)"
  using assms(1)
proof (induction p)
  case Nil
  show ?case
  proof (cases t)
    case Nil
    with assms(2) show ?thesis by (simp add: skip_eq_Some)
  next
    case (Cons x xs)
    show ?thesis
    proof (cases "in_cls c x")
      case True
      have "\<forall>q r. xs = q @ r \<longrightarrow> list_all (in_cls c) q \<longrightarrow> k r = None"
      proof (intro allI impI)
        fix q r assume "xs = q @ r" "list_all (in_cls c) q"
        with True Cons assms(3) [rule_format, of "x # q" r] show "k r = None" by simp
      qed
      then have "star c k xs = None" by (simp add: star_None_iff)
      with Cons True assms(2) show ?thesis by (simp add: skip_def)
    next
      case False
      with Cons assms(2) show ?thesis by (simp add: skip_eq_Some)
    qed
  qed
next
  case (Cons x p)
  then show ?case by simp
qed

lemma plus_intro:
  assumes "p \<noteq> []" and "list_all (in_cls c) p" and "k t = Some ps"
    and "\<forall>q r. t = q @ r \<longrightarrow> q \<noteq> [] \<longrightarrow> list_all (in_cls c) q \<longrightarrow> k r = None"
  shows "plus c k (p @ t) = Some (p # ps)"
proof -
  from assms(1,2) obtain x p' where p: "p = x # p'" "in_cls c x" "list_all (in_cls c) p'"
    by (cases p) auto
  from star_intro [OF p(3) assms(3,4)] p show ?thesis by (simp add: plus_def)
qed

lemma lazy_star_intro:
  assumes "list_all (in_cls c) p" and "k t = Some ps"
    and "\<forall>j < length p. k (drop j p @ t) = None"
  shows "lazy_star c k (p @ t) = Some (p # ps)"
  using assms(1,3)
proof (induction p)
  case Nil
  with assms(2) show ?case by (cases t) (simp_all add: skip_eq_Some)
next
  case (Cons x p)
  from Cons.prems(2) [rule_format, of 0] have kn: "skip k (x # p @ t) = None"
    by (simp add: skip_def)
  have "\<forall>j < length p. k (drop j p @ t) = None"
  proof (intro allI impI)
    fix j assume "j < length p"
    with Cons.prems(2) [rule_format, of "Suc j"] show "k (drop j p @ t) = None" by simp
  qed
  with Cons have "lazy_star c k (p @ t) = Some (p # ps)" by simp
  with kn Cons.prems(1) show ?case by simp
qed

text \<open>Conversely, the piece that a repetition has taken has these properties.\<close>

lemma star_elim:
  "star c k s = Some rs \<Longrightarrow>
     \<exists>p ps t. rs = p # ps \<and> s = p @ t \<and> list_all (in_cls c) p \<and> k t = Some ps
       \<and> (\<forall>q r. t = q @ r \<longrightarrow> q \<noteq> [] \<longrightarrow> list_all (in_cls c) q \<longrightarrow> k r = None)"
proof (induction s arbitrary: rs)
  case Nil
  then show ?case by (auto dest: skip_Some)
next
  case (Cons x xs)
  show ?case
  proof (cases "in_cls c x \<and> star c k xs \<noteq> None")
    case True
    then obtain qs where q: "star c k xs = Some qs" by auto
    from Cons.IH [OF q] obtain p ps t where
      h: "qs = p # ps" "xs = p @ t" "list_all (in_cls c) p" "k t = Some ps"
      "\<forall>q r. t = q @ r \<longrightarrow> q \<noteq> [] \<longrightarrow> list_all (in_cls c) q \<longrightarrow> k r = None" by blast
    moreover from Cons.prems True q have "rs = cons_hd x qs" by simp
    ultimately show ?thesis using True
      by (intro exI [of _ "x # p"] exI [of _ ps] exI [of _ t]) simp
  next
    case False
    with Cons.prems have s: "skip k (x # xs) = Some rs" by (auto split: if_splits)
    then obtain ps where ps: "rs = [] # ps" "k (x # xs) = Some ps" by (auto dest: skip_Some)
    have "k r = None" if "x # xs = q @ r" "q \<noteq> []" "list_all (in_cls c) q" for q r
    proof -
      from that obtain q' where q: "q = x # q'" "xs = q' @ r" "in_cls c x" "list_all (in_cls c) q'"
        by (cases q) auto
      with False have "star c k xs = None" by simp
      with q show ?thesis by (simp add: star_None_iff)
    qed
    with ps show ?thesis
      by (intro exI [of _ "[]"] exI [of _ ps] exI [of _ "x # xs"]) simp
  qed
qed

lemma plus_elim:
  assumes "plus c k s = Some rs"
  shows "\<exists>p ps t. rs = p # ps \<and> s = p @ t \<and> p \<noteq> [] \<and> list_all (in_cls c) p \<and> k t = Some ps
       \<and> (\<forall>q r. t = q @ r \<longrightarrow> q \<noteq> [] \<longrightarrow> list_all (in_cls c) q \<longrightarrow> k r = None)"
proof (cases s)
  case Nil
  with assms show ?thesis by (simp add: plus_def)
next
  case (Cons x xs)
  with assms have x: "in_cls c x" and "map_option (cons_hd x) (star c k xs) = Some rs"
    by (auto simp: plus_def split: if_splits)
  then obtain qs where q: "star c k xs = Some qs" "rs = cons_hd x qs" by auto
  from star_elim [OF q(1)] obtain p ps t where
    "qs = p # ps" "xs = p @ t" "list_all (in_cls c) p" "k t = Some ps"
    "\<forall>q r. t = q @ r \<longrightarrow> q \<noteq> [] \<longrightarrow> list_all (in_cls c) q \<longrightarrow> k r = None" by blast
  with q x Cons show ?thesis
    by (intro exI [of _ "x # p"] exI [of _ ps] exI [of _ t]) simp
qed

lemma lazy_star_elim:
  "lazy_star c k s = Some rs \<Longrightarrow>
     \<exists>p ps t. rs = p # ps \<and> s = p @ t \<and> list_all (in_cls c) p \<and> k t = Some ps
       \<and> (\<forall>j < length p. k (drop j p @ t) = None)"
proof (induction s arbitrary: rs)
  case Nil
  then show ?case by (auto dest: skip_Some)
next
  case (Cons x xs)
  show ?case
  proof (cases "skip k (x # xs)")
    case (Some qs)
    with Cons.prems have "skip k (x # xs) = Some rs" by simp
    then obtain ps where "rs = [] # ps" "k (x # xs) = Some ps" by (auto dest: skip_Some)
    then show ?thesis
      by (intro exI [of _ "[]"] exI [of _ ps] exI [of _ "x # xs"]) simp
  next
    case None
    with Cons.prems have x: "in_cls c x" and "map_option (cons_hd x) (lazy_star c k xs) = Some rs"
      by (auto split: if_splits)
    then obtain qs where q: "lazy_star c k xs = Some qs" "rs = cons_hd x qs" by auto
    from Cons.IH [OF q(1)] obtain p ps t where
      h: "qs = p # ps" "xs = p @ t" "list_all (in_cls c) p" "k t = Some ps"
      "\<forall>j < length p. k (drop j p @ t) = None" by blast
    have "k (drop j (x # p) @ t) = None" if "j < length (x # p)" for j
    proof (cases j)
      case 0
      with None h show ?thesis by (simp add: skip_def)
    next
      case (Suc j')
      with that h(5) show ?thesis by simp
    qed
    with h q x show ?thesis
      by (intro exI [of _ "x # p"] exI [of _ ps] exI [of _ t]) simp
  qed
qed


section \<open>Pieces that fit a pattern\<close>



lemma Lit_mismatch: "\<not> prefix l s \<Longrightarrow> rmatch (Lit l # re) s = None"
  by simp



section \<open>Well-formed files\<close>














lemma entry_text_ne: "entry_text e \<noteq> []"
  by (simp add: entry_text_def entry_pieces_def)
























section \<open>The shape of a text\<close>

lemma zero_digit: "is_digit CHR ''0''"
  by (simp add: is_digit_def)

lemma shp_not_digit: "\<not> is_digit c \<Longrightarrow> shp b (c # s) = c # shape s"
  by (simp add: shape_def)

lemma shape_Nil_iff: "shape x = [] \<longleftrightarrow> x = []"
  by (cases x) (simp_all add: shape_def)

lemma shape_digit_start:
  assumes "shape x = shape y"
  shows "(x \<noteq> [] \<and> is_digit (hd x)) \<longleftrightarrow> (y \<noteq> [] \<and> is_digit (hd y))"
proof -
  have h: "(z \<noteq> [] \<and> is_digit (hd z)) \<longleftrightarrow> (shape z \<noteq> [] \<and> is_digit (hd (shape z)))" for z
    by (cases z) (simp_all add: shape_def zero_digit)
  from assms h [of x] h [of y] show ?thesis by simp
qed

text \<open>Texts of the same shape have the same shape behind a digit, too.\<close>

lemma shape_to_True:
  assumes "shape x = shape y"
  shows "shp True x = shp True y"
proof (cases x)
  case Nil
  with assms have "shape y = []" by (simp add: shape_def)
  then have "y = []" by (simp only: shape_Nil_iff)
  with Nil show ?thesis by simp
next
  case (Cons c x')
  with assms obtain d y' where y: "y = d # y'"
    by (cases y) (auto simp: shape_def split: if_splits)
  from shape_digit_start [OF assms] Cons y have dd: "is_digit c \<longleftrightarrow> is_digit d" by simp
  show ?thesis
  proof (cases "is_digit c")
    case True
    with dd assms Cons y show ?thesis by (simp add: shape_def)
  next
    case False
    with dd assms Cons y show ?thesis by (simp add: shape_def)
  qed
qed

lemma shape_Cons_cong: "shape x = shape y \<Longrightarrow> shape (c # x) = shape (c # y)"
  using shape_to_True [of x y] by (simp add: shape_def)

lemma shape_append_cong: "shape x = shape y \<Longrightarrow> shape (p @ x) = shape (p @ y)"
  by (induction p) (auto intro: shape_Cons_cong)

lemma shp_digits: "list_all is_digit d \<Longrightarrow> shp True (d @ x) = shp True x"
  by (induction d) simp_all

lemma shape_digits: "digits d \<Longrightarrow> shape (d @ x) = CHR ''0'' # shp True x"
  by (cases d) (simp_all add: digits_def shape_def shp_digits)

lemma shape_digits_cong:
  "digits d \<Longrightarrow> digits d' \<Longrightarrow> shape x = shape y \<Longrightarrow> shape (d @ x) = shape (d' @ y)"
  using shape_to_True [of x y] by (simp add: shape_digits)

text \<open>A prefix without digits of one text is a prefix of every text of the same shape.\<close>

lemma shape_eq_prefix:
  "shape x = shape (q @ t') \<Longrightarrow> list_all (\<lambda>c. \<not> is_digit c) q \<Longrightarrow>
     \<exists>t. x = q @ t \<and> shape t = shape t'"
proof (induction q arbitrary: x)
  case Nil
  then show ?case by simp
next
  case (Cons c q)
  from Cons.prems have c: "\<not> is_digit c" and q: "list_all (\<lambda>c. \<not> is_digit c) q" by simp_all
  from Cons.prems(1) c have s: "shape x = c # shape (q @ t')" by (simp add: shape_def)
  then obtain d x' where x: "x = d # x'" by (cases x) (auto simp: shape_def)
  have "\<not> is_digit d"
  proof
    assume "is_digit d"
    with s x have "c = CHR ''0''" by (simp add: shape_def)
    with c zero_digit show False by simp
  qed
  with s x have "d = c" "shape x' = shape (q @ t')" by (simp_all add: shape_def)
  with Cons.IH [OF this(2) q] x show ?case by auto
qed

lemma shp_True_start: "t = [] \<or> \<not> is_digit (hd t) \<Longrightarrow> shp True t = shape t"
  by (cases t) (auto simp: shape_def)

lemma run_split: "\<exists>d r. z = d @ r \<and> list_all is_digit d \<and> (r = [] \<or> \<not> is_digit (hd r))"
proof -
  have "z = takeWhile is_digit z @ dropWhile is_digit z" by simp
  moreover have "list_all is_digit (takeWhile is_digit z)"
    by (auto simp: list_all_iff dest: set_takeWhileD)
  moreover have "dropWhile is_digit z = [] \<or> \<not> is_digit (hd (dropWhile is_digit z))"
    using hd_dropWhile [of is_digit z] by blast
  ultimately show ?thesis by blast
qed

text \<open>
  A place of one text that is not before a digit corresponds to a place of every text of
  the same shape.
\<close>

lemma shape_split:
  "shape x = shape (q @ r) \<Longrightarrow> r = [] \<or> \<not> is_digit (hd r) \<Longrightarrow>
     \<exists>q0 r0. x = q0 @ r0 \<and> shape r0 = shape r"
proof (induction q arbitrary: x rule: length_induct)
  case (1 q)
  note IH = "1.IH" [rule_format]
  show ?case
  proof (cases q)
    case Nil
    with "1.prems" show ?thesis by (intro exI [of _ "[]"] exI [of _ x]) simp
  next
    case (Cons c q')
    show ?thesis
    proof (cases "is_digit c")
      case False
      from "1.prems"(1) Cons have "shape x = shape ([c] @ (q' @ r))" by simp
      from shape_eq_prefix [OF this] False obtain x' where
        x: "x = [c] @ x'" "shape x' = shape (q' @ r)" by auto
      from IH [of q' x'] Cons x(2) "1.prems"(2) obtain q0 r0 where
        "x' = q0 @ r0" "shape r0 = shape r" by auto
      with x show ?thesis by (intro exI [of _ "c # q0"] exI [of _ r0]) simp
    next
      case True
      obtain dq q2 where q: "q = dq @ q2" "list_all is_digit dq" "q2 = [] \<or> \<not> is_digit (hd q2)"
        using run_split [of q] by blast
      with Cons True have dq: "digits dq" by (cases dq) (auto simp: digits_def)
      obtain dx rx where xs: "x = dx @ rx" "list_all is_digit dx" "rx = [] \<or> \<not> is_digit (hd rx)"
        using run_split [of x] by blast
      from "1.prems"(1) q dq have sx: "shape x = CHR ''0'' # shp True (q2 @ r)"
        by (simp add: shape_digits)
      from shape_digit_start [OF "1.prems"(1)] Cons True have "x \<noteq> []" "is_digit (hd x)" by simp_all
      with xs have dx: "digits dx" by (cases dx) (auto simp: digits_def)
      have st: "q2 @ r = [] \<or> \<not> is_digit (hd (q2 @ r))"
        using q(3) "1.prems"(2) by (cases q2) auto
      from sx xs dx have "shp True rx = shp True (q2 @ r)" by (simp add: shape_digits)
      with xs(3) st have e: "shape rx = shape (q2 @ r)" by (simp add: shp_True_start)
      from dq q have "length q2 < length q" by (simp add: digits_def)
      from IH [OF this e "1.prems"(2)] obtain q0 r0 where "rx = q0 @ r0" "shape r0 = shape r"
        by blast
      with xs show ?thesis by (intro exI [of _ "dx @ q0"] exI [of _ r0]) simp
    qed
  qed
qed


section \<open>Patterns that see the shape only\<close>

lemma digit_free_not_digit: "digit_free c \<Longrightarrow> in_cls c x \<Longrightarrow> \<not> is_digit x"
  by (cases c) (auto simp: is_digit_not_space is_upper_def is_digit_def)

lemma digit_free_all: "digit_free c \<Longrightarrow> list_all (in_cls c) q \<Longrightarrow> list_all (\<lambda>c. \<not> is_digit c) q"
  by (auto simp: list_all_iff dest: digit_free_not_digit)

text \<open>Such a pattern does not match a text that begins with a digit.\<close>

lemma rej_None: "rej re \<Longrightarrow> is_digit c \<Longrightarrow> rmatch re (c # x) = None"
proof (induction re rule: rej.induct)
  case (1 l "is")
  then have "\<not> prefix l (c # x)" by (cases l) auto
  then show ?case by simp
next
  case (2 c' "is")
  then have "\<not> in_cls c' c" using digit_free_not_digit by auto
  with 2 show ?case by (simp add: skip_def)
qed simp_all

lemma rej_start: "rej re \<Longrightarrow> rmatch re x = Some ps \<Longrightarrow> x = [] \<or> \<not> is_digit (hd x)"
  using rej_None [of re "hd x" "tl x"] by (cases x) auto

text \<open>Whether a safe pattern matches depends on the shape of the text only.\<close>

lemma safe_None:
  "safe re \<Longrightarrow> shape x = shape y \<Longrightarrow> rmatch re x = None \<Longrightarrow> rmatch re y = None"
proof (induction re arbitrary: x y)
  case Nil
  then show ?case by simp
next
  case (Cons i re)
  note IH = Cons.IH
  show ?case
  proof (cases i)
    case (Lit l)
    with Cons.prems have s: "safe re" and l: "list_all (\<lambda>c. \<not> is_digit c) l" by simp_all
    show ?thesis
    proof (cases "prefix l y")
      case False
      with Lit show ?thesis by simp
    next
      case True
      then obtain t' where y: "y = l @ t'" by (auto simp: prefix_def)
      from shape_eq_prefix [OF _ l, of x t'] Cons.prems(2) y obtain t where
        x: "x = l @ t" "shape t = shape t'" by auto
      with Cons.prems(3) Lit have "rmatch re t = None" by simp
      from IH [OF s x(2) this] y Lit show ?thesis by simp
    qed
  next
    case (Star c)
    with Cons.prems have s: "safe re" and c: "digit_free c" by simp_all
    from Cons.prems(3) Star have n: "star c (rmatch re) x = None" by simp
    have "rmatch re r = None" if "y = q @ r" "list_all (in_cls c) q" for q r
    proof -
      from shape_eq_prefix [OF _ digit_free_all [OF c that(2)], of x r] Cons.prems(2) that(1)
      obtain r0 where x: "x = q @ r0" "shape r0 = shape r" by auto
      with n that(2) have "rmatch re r0 = None" by (simp add: star_None_iff)
      from IH [OF s x(2) this] show ?thesis .
    qed
    with Star show ?thesis by (simp add: star_None_iff)
  next
    case (Exactly n c)
    with Cons.prems have s: "safe re" and c: "digit_free c" by simp_all
    show ?thesis
    proof (cases "n \<le> length y \<and> list_all (in_cls c) (take n y)")
      case False
      with Exactly show ?thesis by auto
    next
      case True
      have y: "y = take n y @ drop n y" by simp
      from shape_eq_prefix [OF _ digit_free_all [OF c], of x "take n y" "drop n y"]
        Cons.prems(2) True
      obtain r0 where x: "x = take n y @ r0" "shape r0 = shape (drop n y)" by auto
      from x(1) True have "take n x = take n y" "drop n x = r0" "n \<le> length x"
        by (simp_all add: min_def)
      with Cons.prems(3) Exactly True have "rmatch re r0 = None" by (simp split: if_splits)
      from IH [OF s x(2) this] Exactly show ?thesis by simp
    qed
  next
    case (LazyStar c)
    with Cons.prems have s: "safe re" and r: "rej re" by simp_all
    from Cons.prems(3) LazyStar have n: "lazy_star c (rmatch re) x = None" by simp
    have "rmatch re r' = None" if "y = q @ r'" for q r'
    proof (cases "r' = [] \<or> \<not> is_digit (hd r')")
      case False
      then show ?thesis using rej_None [OF r, of "hd r'" "tl r'"] by (cases r') auto
    next
      case True
      from shape_split [OF _ True, of x q] Cons.prems(2) that obtain q0 r0 where
        x: "x = q0 @ r0" "shape r0 = shape r'" by auto
      from LazyStar Cons.prems(1) have "list_all (in_cls c) q0" by (simp add: list_all_iff)
      with n x have "rmatch re r0 = None" by (simp add: lazy_star_None_iff)
      from IH [OF s x(2) this] show ?thesis .
    qed
    with LazyStar show ?thesis by (simp add: lazy_star_None_iff)
  next
    case (Plus c)
    with Cons.prems have s: "safe re" and c: "c = Digit" and e: "re = [] \<or> rej re" by simp_all
    from Cons.prems(3) Plus have n: "plus c (rmatch re) x = None" by simp
    have "rmatch re r' = None" if q: "y = q @ r'" "q \<noteq> []" "list_all (in_cls c) q" for q r'
    proof -
      from q c have yd: "y \<noteq> []" "is_digit (hd y)" by (cases q; simp)+
      with shape_digit_start [OF Cons.prems(2)] have xd: "x \<noteq> []" "is_digit (hd x)" by simp_all
      obtain dx rx where xs: "x = dx @ rx" "list_all is_digit dx" "rx = [] \<or> \<not> is_digit (hd rx)"
        using run_split [of x] by blast
      with xd have dx: "digits dx" by (cases dx) (auto simp: digits_def)
      from n have "\<forall>q r. x = q @ r \<longrightarrow> q \<noteq> [] \<longrightarrow> list_all (in_cls c) q \<longrightarrow> rmatch re r = None"
        by (simp add: plus_None_iff)
      from this [rule_format, of dx rx] xs dx c have k0: "rmatch re rx = None"
        by (simp add: digits_def list_all_iff)
      show ?thesis
      proof (cases "r' = [] \<or> \<not> is_digit (hd r')")
        case False
        from k0 e have "rej re" by auto
        with False show ?thesis using rej_None [of re "hd r'" "tl r'"] by (cases r') auto
      next
        case True
        from q c have dq: "digits q" by (simp add: digits_def list_all_iff)
        from Cons.prems(2) xs(1) q(1) dx dq have "shp True rx = shp True r'"
          by (simp add: shape_digits)
        with xs(3) True have "shape rx = shape r'" by (simp add: shp_True_start)
        from IH [OF s this k0] show ?thesis .
      qed
    qed
    with Plus show ?thesis by (simp add: plus_None_iff)
  next
    case (Opt c)
    with Cons.prems show ?thesis by simp
  qed
qed

lemma retoken_Cons:
  "retoken (i # re) ps ps' \<Longrightarrow>
     \<exists>p qs p' qs'. ps = p # qs \<and> ps' = p' # qs' \<and> (if i = Plus Digit then digits p' else p' = p)
       \<and> retoken re qs qs'"
  by (cases ps; cases ps') auto

lemma retoken_shape:
  "list_all2 piece_ok re ps \<Longrightarrow> retoken re ps ps' \<Longrightarrow> shape t = shape t' \<Longrightarrow>
     shape (concat ps @ t) = shape (concat ps' @ t')"
proof (induction re arbitrary: ps ps')
  case Nil
  then show ?case by simp
next
  case (Cons i re)
  from retoken_Cons [OF Cons.prems(2)] obtain p qs p' qs' where
    h: "ps = p # qs" "ps' = p' # qs'" "if i = Plus Digit then digits p' else p' = p"
    "retoken re qs qs'" by blast
  from Cons.prems(1) h have ok: "piece_ok i p" "list_all2 piece_ok re qs" by simp_all
  from Cons.IH [OF ok(2) h(4) Cons.prems(3)]
  have ih: "shape (concat qs @ t) = shape (concat qs' @ t')" .
  show ?case
  proof (cases "i = Plus Digit")
    case True
    with ok(1) have d: "digits p" by (simp add: digits_def list_all_iff)
    from True h have d': "digits p'" by simp
    from shape_digits_cong [OF d d' ih] h show ?thesis by simp
  next
    case False
    with h have "p' = p" by simp
    with shape_append_cong [OF ih, of p] h show ?thesis by simp
  qed
qed

text \<open>
  A match of a safe pattern stays a match, piece by piece, when the numbers that its
  \<^verbatim>\<open>\d+\<close> items have taken are replaced by other numbers and the text behind the match
  by a text of the same shape.
\<close>

lemma safe_Some:
  "safe re \<Longrightarrow> rmatch re (concat ps @ t) = Some ps \<Longrightarrow> retoken re ps ps' \<Longrightarrow>
     shape t = shape t' \<Longrightarrow> rmatch re (concat ps' @ t') = Some ps'"
proof (induction re arbitrary: ps ps')
  case Nil
  then show ?case by simp
next
  case (Cons i re)
  from retoken_Cons [OF Cons.prems(3)] obtain p qs p' qs' where
    h: "ps = p # qs" "ps' = p' # qs'" "if i = Plus Digit then digits p' else p' = p"
    "retoken re qs qs'" by blast
  define X where "X = concat qs @ t"
  define X' where "X' = concat qs' @ t'"
  from Cons.prems(2) h have m: "match_item i (rmatch re) (p @ X) = Some (p # qs)"
    by (simp add: X_def)
  from match_item_Some [OF m] have kp: "rmatch re X = Some qs" "piece_ok i p" by auto
  from rmatch_Some [OF kp(1)] have ok: "list_all2 piece_ok re qs" by blast
  from retoken_shape [OF ok h(4) Cons.prems(4)] have sh: "shape X = shape X'"
    by (simp add: X_def X'_def)
  show ?case
  proof (cases i)
    case (Lit l)
    with Cons.prems(1) have s: "safe re" by simp
    from Cons.IH [OF s _ h(4) Cons.prems(4)] kp(1) have "rmatch re X' = Some qs'"
      by (simp add: X_def X'_def)
    with Lit h kp(2) show ?thesis by (simp add: X'_def)
  next
    case (Exactly n c)
    with Cons.prems(1) have s: "safe re" by simp
    from Cons.IH [OF s _ h(4) Cons.prems(4)] kp(1) have "rmatch re X' = Some qs'"
      by (simp add: X_def X'_def)
    with Exactly h kp(2) show ?thesis by (simp add: X'_def)
  next
    case (Opt c)
    with Cons.prems(1) show ?thesis by simp
  next
    case (Star c)
    with Cons.prems(1) have s: "safe re" and c: "digit_free c" by simp_all
    from Cons.IH [OF s _ h(4) Cons.prems(4)] kp(1) have k': "rmatch re X' = Some qs'"
      by (simp add: X_def X'_def)
    from m Star have "star c (rmatch re) (p @ X) = Some (p # qs)" by simp
    from star_elim [OF this] obtain p0 t0 where
      e: "p @ X = p0 @ t0" "p # qs = p0 # qs" "list_all (in_cls c) p0"
      "\<forall>q r. t0 = q @ r \<longrightarrow> q \<noteq> [] \<longrightarrow> list_all (in_cls c) q \<longrightarrow> rmatch re r = None"
      by auto
    then have e': "p0 = p" "t0 = X" by simp_all
    have "rmatch re r = None" if q: "X' = q @ r" "q \<noteq> []" "list_all (in_cls c) q" for q r
    proof -
      from shape_eq_prefix [OF _ digit_free_all [OF c q(3)], of X r] sh q(1)
      obtain r0 where x: "X = q @ r0" "shape r0 = shape r" by auto
      with e(4) e' q have "rmatch re r0 = None" by blast
      from safe_None [OF s x(2) this] show ?thesis .
    qed
    with star_intro [where k = "rmatch re", OF _ k', of c p] e e' Star h show ?thesis
      by (simp add: X'_def)
  next
    case (LazyStar c)
    with Cons.prems(1) have s: "safe re" by simp
    from Cons.IH [OF s _ h(4) Cons.prems(4)] kp(1) have k': "rmatch re X' = Some qs'"
      by (simp add: X_def X'_def)
    from m LazyStar have "lazy_star c (rmatch re) (p @ X) = Some (p # qs)" by simp
    from lazy_star_elim [OF this] obtain p0 t0 where
      e: "p @ X = p0 @ t0" "p # qs = p0 # qs" "list_all (in_cls c) p0"
      "\<forall>j < length p0. rmatch re (drop j p0 @ t0) = None"
      by auto
    then have e': "p0 = p" "t0 = X" by simp_all
    have "rmatch re (drop j p @ X') = None" if "j < length p" for j
    proof -
      from e(4) e' that have "rmatch re (drop j p @ X) = None" by simp
      from safe_None [OF s shape_append_cong [OF sh] this] show ?thesis .
    qed
    with lazy_star_intro [where k = "rmatch re", OF _ k', of c p] e e' LazyStar h show ?thesis
      by (simp add: X'_def)
  next
    case (Plus c)
    with Cons.prems(1) have s: "safe re" and c: "c = Digit" and r: "re = [] \<or> rej re"
      by simp_all
    from Cons.IH [OF s _ h(4) Cons.prems(4)] kp(1) have k': "rmatch re X' = Some qs'"
      by (simp add: X_def X'_def)
    from m Plus have "plus c (rmatch re) (p @ X) = Some (p # qs)" by simp
    from plus_elim [OF this] obtain p0 t0 where
      e: "p @ X = p0 @ t0" "p # qs = p0 # qs"
      "\<forall>q r. t0 = q @ r \<longrightarrow> q \<noteq> [] \<longrightarrow> list_all (in_cls c) q \<longrightarrow> rmatch re r = None"
      by auto
    then have e': "p0 = p" "t0 = X" by simp_all
    have st: "X = [] \<or> \<not> is_digit (hd X)"
    proof (rule ccontr)
      assume "\<not> (X = [] \<or> \<not> is_digit (hd X))"
      then obtain d X1 where d: "X = d # X1" "is_digit d" by (cases X) auto
      with e(3) e' c have n: "rmatch re X1 = None"
        using e(3) [rule_format, of "[d]" X1] by simp
      from r show False
      proof
        assume "re = []"
        with n show False by simp
      next
        assume "rej re"
        from rej_start [OF this kp(1)] d show False by simp
      qed
    qed
    with shape_digit_start [OF sh] have st': "X' = [] \<or> \<not> is_digit (hd X')" by auto
    have "rmatch re r = None" if q: "X' = q @ r" "q \<noteq> []" "list_all (in_cls c) q" for q r
    proof -
      from q c have "X' \<noteq> []" "is_digit (hd X')" by (cases q; simp)+
      with st' show ?thesis by simp
    qed
    moreover from h Plus c have "digits p'" by simp
    ultimately show ?thesis
      using plus_intro [where k = "rmatch re", OF _ _ k', of p' c] Plus h c
      by (simp add: X'_def digits_def list_all_iff)
  qed
qed


section \<open>A second run of the patcher\<close>

lemma safe_country_re: "safe country_re"
  by (simp add: country_re_def is_digit_def)

lemma update_lengths_unfold:
  "update_lengths s L =
     (case rmatch country_re s of
        Some ps \<Rightarrow> replacer L (mk_match ps) @ update_lengths (drop (length (concat ps)) s) L
      | None \<Rightarrow> (case s of [] \<Rightarrow> [] | c # cs \<Rightarrow> c # update_lengths cs L))"
proof -
  have e: "Lit ''Country('' # tl country_re = country_re"
    by (simp add: country_re_def)
  have "scan country_re s =
     (case rmatch country_re s of
        Some ps \<Rightarrow> Hit ps # scan country_re (drop (length (concat ps)) s)
      | None \<Rightarrow> (case s of [] \<Rightarrow> [] | c # cs \<Rightarrow> Gap c # scan country_re cs))"
    using scan_Lit [of "''Country(''" "tl country_re" s] unfolding e by simp
  then show ?thesis
    by (simp add: update_lengths_def re_sub_def split: option.splits list.splits)
qed

lemma country_re_list:
  assumes "rmatch country_re t = Some ps" and "q = nth ps"
  shows "ps = [q 0, q 1, q 2, q 3, q 4, q 5, q 6, q 7, q 8, q 9, q 10, q 11, q 12, q 13, q 14,
               q 15, q 16, q 17, q 18, q 19, q 20, q 21]"
    and "digits (q 13)" and "digits (q 21)"
proof -
  from rmatch_Some [OF assms(1)] have ok: "list_all2 piece_ok country_re ps" by blast
  then obtain p0 p1 p2 p3 p4 p5 p6 p7 p8 p9 p10 p11 p12 p13 p14 p15 p16 p17 p18 p19 p20 p21
    where ps: "ps = [p0, p1, p2, p3, p4, p5, p6, p7, p8, p9, p10, p11, p12, p13, p14, p15,
                     p16, p17, p18, p19, p20, p21]"
      and d: "piece_ok (Plus Digit) p13" "piece_ok (Plus Digit) p21"
    unfolding country_re_def by (auto simp: list_all2_Cons1)
  from d have dd: "digits p13" "digits p21" by (simp_all add: digits_def list_all_iff)
  from ps assms(2) show "ps = [q 0, q 1, q 2, q 3, q 4, q 5, q 6, q 7, q 8, q 9, q 10, q 11,
      q 12, q 13, q 14, q 15, q 16, q 17, q 18, q 19, q 20, q 21]" by simp
  from ps assms(2) dd show "digits (q 13)" and "digits (q 21)" by simp_all
qed

lemma new_min_idem: "new_min a (new_min a c) = new_min a c"
  by (simp add: new_min_def)

lemma new_max_idem: "new_max b (new_max b c) = new_max b c"
  by (simp add: new_max_def)

text \<open>
  What \<open>replacer\<close> returns for a match consists of the pieces of the match with, at most,
  other numbers, and \<open>replacer\<close> returns these pieces unchanged.
\<close>

lemma replacer_retoken:
  assumes "rmatch country_re t = Some ps"
  shows "\<exists>ps'. retoken country_re ps ps' \<and> replacer L (mk_match ps) = concat ps'
           \<and> replacer L (mk_match ps') = concat ps'"
proof -
  define q where "q = nth ps"
  note ps = country_re_list(1) [OF assms q_def]
  note d = country_re_list(2,3) [OF assms q_def]
  show ?thesis
  proof (cases "replacer L (mk_match ps) = group0 (mk_match ps)")
    case True
    from d have "retoken country_re ps ps" by (subst (1 2) ps) (simp add: country_re_def)
    with True show ?thesis by (intro exI [of _ ps]) (simp add: mk_match_def)
  next
    case False
    then obtain a b where L: "L (group_code (mk_match ps)) = Some (a, b)" and pos: "0 < a"
      by (auto simp: replacer_def split: option.splits if_splits)
    from d have dm: "digits (group_min (mk_match ps))" "digits (group_max (mk_match ps))"
      by (simp_all add: mk_match_def q_def)
    from py_int_digits_nonneg [OF dm(1)] obtain cm where
      cm: "py_int (group_min (mk_match ps)) = Some cm" "0 \<le> cm" by blast
    from py_int_digits_nonneg [OF dm(2)] obtain cx where
      cx: "py_int (group_max (mk_match ps)) = Some cx" "0 \<le> cx" by blast
    define nm where "nm = new_min a cm"
    define nx where "nx = new_max b cx"
    from pos cm(2) have nm: "0 \<le> nm" by (simp add: nm_def new_min_def)
    from cx(2) have nx: "0 \<le> nx" by (simp add: nx_def new_max_def)
    define ps' where "ps' = [q 0, q 1, q 2, q 3, q 4, q 5, q 6, q 7, q 8, q 9, q 10, q 11,
        q 12, py_str nm, q 14, q 15, q 16, q 17, q 18, q 19, q 20, py_str nx]"
    from False L pos cm cx have r: "replacer L (mk_match ps)
        = group1 (mk_match ps) @ py_str nm @ group4 (mk_match ps) @ py_str nx"
      by (auto simp: replacer_def nm_def nx_def)
    have 1: "retoken country_re ps ps'"
      using nm nx by (subst ps) (simp add: ps'_def country_re_def digits_py_str)
    have gs: "group1 (mk_match ps) = concat [q 0, q 1, q 2, q 3, q 4, q 5, q 6, q 7, q 8, q 9,
        q 10, q 11, q 12]"
      "group4 (mk_match ps) = concat [q 14, q 15, q 16, q 17, q 18, q 19, q 20]"
      unfolding mk_match_def by (subst ps, simp)+
    have 2: "replacer L (mk_match ps) = concat ps'"
      by (simp add: r gs ps'_def)
    have g: "group_code (mk_match ps') = group_code (mk_match ps)"
      "group_min (mk_match ps') = py_str nm" "group_max (mk_match ps') = py_str nx"
      "group0 (mk_match ps') = concat ps'"
      by (simp_all add: ps'_def mk_match_def q_def)
    have 3: "replacer L (mk_match ps') = concat ps'"
      using L pos nm nx
      by (simp add: replacer_def g py_int_py_str nm_def nx_def new_min_idem new_max_idem)
    from 1 2 3 show ?thesis by blast
  qed
qed

lemma match_split:
  assumes "rmatch country_re s = Some ps"
  shows "s = concat ps @ drop (length (concat ps)) s"
    and "length (drop (length (concat ps)) s) < length s"
proof -
  from rmatch_Some [OF assms] obtain t where t: "s = concat ps @ t" by blast
  then show "s = concat ps @ drop (length (concat ps)) s"
    by (metis append_eq_conv_conj)
  from country_re_pieces(2) [OF assms] have "ps ! 13 \<noteq> []" by (simp add: digits_def)
  moreover from country_re_pieces(1) [OF assms] have "ps ! 13 \<in> set ps" by simp
  ultimately have "concat ps \<noteq> []" by auto
  then have "0 < length (concat ps)" by (simp del: concat_eq_Nil_conv)
  moreover from t have "length (concat ps) \<le> length s" by (metis length_append le_add1)
  ultimately show "length (drop (length (concat ps)) s) < length s"
    by (simp del: length_greater_0_conv)
qed

lemma update_lengths_shape: "shape (update_lengths s L) = shape s"
proof (induction s rule: length_induct)
  case (1 s)
  note IH = "1.IH" [rule_format]
  show ?case
  proof (cases "rmatch country_re s")
    case None
    show ?thesis
    proof (cases s)
      case Nil
      with None show ?thesis by (subst update_lengths_unfold) simp
    next
      case (Cons c cs)
      from IH [of cs] Cons have "shape (update_lengths cs L) = shape cs" by simp
      from shape_Cons_cong [OF this, of c] None Cons show ?thesis
        by (subst update_lengths_unfold) simp
    qed
  next
    case (Some ps)
    define rest where "rest = drop (length (concat ps)) s"
    from match_split [OF Some] have s: "s = concat ps @ rest" and l: "length rest < length s"
      by (simp_all add: rest_def)
    from replacer_retoken [OF Some, of L] obtain ps' where
      r: "retoken country_re ps ps'" "replacer L (mk_match ps) = concat ps'" by blast
    from rmatch_Some [OF Some] have ok: "list_all2 piece_ok country_re ps" by blast
    from IH [OF l] have "shape rest = shape (update_lengths rest L)" by simp
    from retoken_shape [OF ok r(1) this]
    have "shape (concat ps' @ update_lengths rest L) = shape (concat ps @ rest)" by simp
    moreover from Some r(2) have "update_lengths s L = concat ps' @ update_lengths rest L"
      by (subst update_lengths_unfold) (simp add: rest_def)
    ultimately show ?thesis using s by simp
  qed
qed

text \<open>
  C9: a second run of the patcher with the same mapping changes nothing:
  \<open>update_lengths\<close> applied to its own result returns that result.
\<close>

theorem update_lengths_idempotent:
  "update_lengths (update_lengths s L) L = update_lengths s L"
proof (induction s rule: length_induct)
  case (1 s)
  note IH = "1.IH" [rule_format]
  show ?case
  proof (cases "rmatch country_re s")
    case None
    show ?thesis
    proof (cases s)
      case Nil
      with None have "update_lengths s L = []" by (subst update_lengths_unfold) simp
      with Nil None show ?thesis by simp
    next
      case (Cons c cs)
      with None have u: "update_lengths s L = c # update_lengths cs L"
        by (subst update_lengths_unfold) simp
      have "shape s = shape (c # update_lengths cs L)"
        using update_lengths_shape [of s L] u by simp
      from safe_None [OF safe_country_re this None]
      have "update_lengths (c # update_lengths cs L) L
          = c # update_lengths (update_lengths cs L) L"
        by (subst update_lengths_unfold) simp
      with IH [of cs] Cons u show ?thesis by simp
    qed
  next
    case (Some ps)
    define rest where "rest = drop (length (concat ps)) s"
    from match_split [OF Some] have s: "s = concat ps @ rest" and l: "length rest < length s"
      by (simp_all add: rest_def)
    from replacer_retoken [OF Some, of L] obtain ps' where
      r: "retoken country_re ps ps'" "replacer L (mk_match ps) = concat ps'"
      "replacer L (mk_match ps') = concat ps'" by blast
    from Some r(2) have u: "update_lengths s L = concat ps' @ update_lengths rest L"
      by (subst update_lengths_unfold) (simp add: rest_def)
    from Some s have "rmatch country_re (concat ps @ rest) = Some ps" by simp
    from safe_Some [OF safe_country_re this r(1), of "update_lengths rest L"]
    have m: "rmatch country_re (concat ps' @ update_lengths rest L) = Some ps'"
      by (simp add: update_lengths_shape)
    have "update_lengths (concat ps' @ update_lengths rest L) L
        = concat ps' @ update_lengths (update_lengths rest L) L"
      by (subst update_lengths_unfold) (simp add: m r(3))
    with IH [OF l] u show ?thesis by simp
  qed
qed

theorem update_lengths_idempotent_witness:
  "update_lengths example_source [''US'' \<mapsto> (7, 12)]
     = ''[Country(code: \"US\",minLength: 7,\<newline>maxLength: 12)]''
   \<and> update_lengths (update_lengths example_source [''US'' \<mapsto> (7, 12)]) [''US'' \<mapsto> (7, 12)]
     = ''[Country(code: \"US\",minLength: 7,\<newline>maxLength: 12)]''"
proof -
  have "update_lengths example_source [''US'' \<mapsto> (7, 12)]
     = ''[Country(code: \"US\",minLength: 7,\<newline>maxLength: 12)]''"
    by code_simp
  with update_lengths_idempotent [of example_source "[''US'' \<mapsto> (7, 12)]"]
  show ?thesis by simp
qed

end
